theory Spec2Isabelle
  imports Main "HOL-Library.Word" "HOL-Library.AList"
begin

section \<open>The tracing JIT of src/src/cuda/trace.cu\<close>

text \<open>
  The development follows the translation unit \<^verbatim>\<open>trace.cu\<close>: the \<^verbatim>\<open>Variable\<close>
  record of one trace node, the process-wide trace with its active set and dirty
  queue, the four reference counting operations, the append routines, the
  scheduler (\<^verbatim>\<open>sweep_recursive\<close>, \<^verbatim>\<open>cuda_eval\<close>) and the emitter
  (\<^verbatim>\<open>cuda_render_cmd\<close>, \<^verbatim>\<open>cuda_jit_assemble\<close>).

  Conventions of the embedding.
  \<^item> The global variables \<^verbatim>\<open>__trace\<close>, \<^verbatim>\<open>__active\<close> and \<^verbatim>\<open>__dirty\<close> are the fields of
    an explicit state record that every operation takes and returns.
  \<^item> \<^verbatim>\<open>uint32_t\<close> counters (both reference counts, \<^verbatim>\<open>subtree_size\<close>) are
    \<open>32 word\<close>, \<^verbatim>\<open>size_t\<close> element counts are \<open>64 word\<close>. Node indices and register
    numbers are natural numbers: a trace is far shorter than \<open>2^32\<close> entries, and no
    arithmetic but the increment of a fresh index is ever done on them.
  \<^item> A device pointer is a natural number, \<open>0\<close> being \<^verbatim>\<open>nullptr\<close>. \<^verbatim>\<open>cudaMalloc\<close> belongs to
    the CUDA runtime; it is taken to succeed and to hand out a fresh non-null address,
    counted by the field \<open>heap_top\<close>. \<^verbatim>\<open>cudaFree\<close> and the driver calls of
    \<^verbatim>\<open>cuda_jit_run\<close> leave the trace alone and are taken to succeed.
  \<^item> A \<^verbatim>\<open>throw\<close> and a failed \<^verbatim>\<open>assert\<close> are error values (\<open>Inl\<close>). An access the
    source leaves undefined (an index outside the vector or outside \<^verbatim>\<open>dep\<close>) stops
    the model with \<open>UndefinedBehaviour\<close>.
  \<^item> The release of a node cascades through its dependencies
    (\<^verbatim>\<open>cuda_dec_ref_int\<close> and \<^verbatim>\<open>cuda_var_free\<close> call each other) and the scheduler
    recurses through the dependency graph; both recursions carry a fuel argument,
    and running out of fuel is the result \<open>None\<close>.
\<close>

subsection \<open>Element types and the type registry\<close>

text \<open>
  Modelled from the spec: the declaration of the enumeration \<^verbatim>\<open>EnokiType\<close> lives in
  \<^verbatim>\<open>common.cuh\<close>, which is not among the sources. The enumerators are the ones
  \<^verbatim>\<open>trace.cu\<close> switches over.
\<close>

datatype EnokiType =
  Invalid | Int8 | UInt8 | Int16 | UInt16 | Int32 | UInt32 | Int64 | UInt64
  | Float16 | Float32 | Float64 | Bool | Pointer

definition ENOKI_CUDA_REG_RESERVED :: nat where
  "ENOKI_CUDA_REG_RESERVED = 10"

fun cuda_register_size :: "EnokiType \<Rightarrow> 64 word" where
  "cuda_register_size UInt8 = 1"
| "cuda_register_size Int8 = 1"
| "cuda_register_size Bool = 1"
| "cuda_register_size UInt16 = 2"
| "cuda_register_size Int16 = 2"
| "cuda_register_size UInt32 = 4"
| "cuda_register_size Int32 = 4"
| "cuda_register_size Pointer = 8"
| "cuda_register_size UInt64 = 8"
| "cuda_register_size Int64 = 8"
| "cuda_register_size Float32 = 4"
| "cuda_register_size Float64 = 8"
| "cuda_register_size _ = - 1"

text \<open>The three name tables return \<^verbatim>\<open>nullptr\<close> (here \<open>None\<close>) in their default case.\<close>

fun cuda_register_type :: "EnokiType \<Rightarrow> string option" where
  "cuda_register_type UInt8 = Some ''u8''"
| "cuda_register_type Int8 = Some ''s8''"
| "cuda_register_type UInt16 = Some ''u16''"
| "cuda_register_type Int16 = Some ''s16''"
| "cuda_register_type UInt32 = Some ''u32''"
| "cuda_register_type Int32 = Some ''s32''"
| "cuda_register_type Pointer = Some ''u64''"
| "cuda_register_type UInt64 = Some ''u64''"
| "cuda_register_type Int64 = Some ''s64''"
| "cuda_register_type Float16 = Some ''f16''"
| "cuda_register_type Float32 = Some ''f32''"
| "cuda_register_type Float64 = Some ''f64''"
| "cuda_register_type Bool = Some ''pred''"
| "cuda_register_type _ = None"

fun cuda_register_type_bin :: "EnokiType \<Rightarrow> string option" where
  "cuda_register_type_bin UInt8 = Some ''b8''"
| "cuda_register_type_bin Int8 = Some ''b8''"
| "cuda_register_type_bin UInt16 = Some ''b16''"
| "cuda_register_type_bin Float16 = Some ''b16''"
| "cuda_register_type_bin Int16 = Some ''b16''"
| "cuda_register_type_bin Float32 = Some ''b32''"
| "cuda_register_type_bin UInt32 = Some ''b32''"
| "cuda_register_type_bin Int32 = Some ''b32''"
| "cuda_register_type_bin Pointer = Some ''b64''"
| "cuda_register_type_bin Float64 = Some ''b64''"
| "cuda_register_type_bin UInt64 = Some ''b64''"
| "cuda_register_type_bin Int64 = Some ''b64''"
| "cuda_register_type_bin Bool = Some ''pred''"
| "cuda_register_type_bin _ = None"

fun cuda_register_name :: "EnokiType \<Rightarrow> string option" where
  "cuda_register_name UInt8 = Some ''%b''"
| "cuda_register_name Int8 = Some ''%b''"
| "cuda_register_name UInt16 = Some ''%w''"
| "cuda_register_name Int16 = Some ''%w''"
| "cuda_register_name UInt32 = Some ''%r''"
| "cuda_register_name Int32 = Some ''%r''"
| "cuda_register_name Pointer = Some ''%rd''"
| "cuda_register_name UInt64 = Some ''%rd''"
| "cuda_register_name Int64 = Some ''%rd''"
| "cuda_register_name Float32 = Some ''%f''"
| "cuda_register_name Float64 = Some ''%d''"
| "cuda_register_name Bool = Some ''%p''"
| "cuda_register_name _ = None"

subsection \<open>Trace nodes and the global state\<close>

text \<open>
  \<^verbatim>\<open>struct Variable\<close>, field by field. The fields \<^verbatim>\<open>type\<close>, \<^verbatim>\<open>size\<close> and \<^verbatim>\<open>free\<close> carry the
  suffix \<open>_v\<close>; \<^verbatim>\<open>dep\<close>, a \<^verbatim>\<open>std::array<uint32_t, 3>\<close>, is a triple.
\<close>

type_synonym deps = "nat \<times> nat \<times> nat"

record Variable =
  type_v :: EnokiType
  cmd :: string
  comment :: string
  size_v :: "64 word"
  data :: nat
  ref_count_ext :: "32 word"
  ref_count_int :: "32 word"
  dep :: deps
  side_effect :: bool
  dirty :: bool
  free_v :: bool
  subtree_size :: "32 word"

fun dep_get :: "deps \<Rightarrow> nat \<Rightarrow> nat" where
  "dep_get (a, b, c) i = (if i = 0 then a else if i = 1 then b else c)"

fun dep_set :: "deps \<Rightarrow> nat \<Rightarrow> nat \<Rightarrow> deps" where
  "dep_set (a, b, c) i x = (if i = 0 then (x, b, c) else if i = 1 then (a, x, c) else (a, b, x))"

text \<open>The constructor \<^verbatim>\<open>Variable(EnokiType type)\<close> with the default member initialisers.\<close>

definition new_Variable :: "EnokiType \<Rightarrow> Variable" where
  "new_Variable t =
     \<lparr> type_v = t, cmd = [], comment = [], size_v = 1, data = 0,
       ref_count_ext = 0, ref_count_int = 0, dep = (0, 0, 0),
       side_effect = False, dirty = False, free_v = True, subtree_size = 0 \<rparr>"

definition is_collected :: "Variable \<Rightarrow> bool" where
  "is_collected v = (ref_count_int v = 0 \<and> ref_count_ext v = 0)"

record state =
  trace :: "Variable list"
  active :: "nat list"
  dirty_list :: "nat list"
  heap_top :: nat

datatype error =
  AssertionFailed
  | NegativeRefCount
  | Uninitialized
  | TooManyPrintArgs
  | InvalidTemplate
  | OutOfBounds
  | UnsupportedType
  | VariableNotFound
  | InvalidVariable nat
  | IncompatibleSize
  | UndefinedBehaviour

text \<open>
  The result of an operation that may run out of fuel: \<open>None\<close> when it did,
  \<open>Some (Inl e)\<close> when the source throws or an assertion fails, \<open>Some (Inr x)\<close>
  when it returns.
\<close>

type_synonym 'a res = "(error + 'a) option"

definition upd_var :: "state \<Rightarrow> nat \<Rightarrow> (Variable \<Rightarrow> Variable) \<Rightarrow> state" where
  "upd_var s i f = s\<lparr>trace := (trace s)[i := f (trace s ! i)]\<rparr>"

text \<open>
  \<^verbatim>\<open>cuda_init\<close>: slot 0 is \<^verbatim>\<open>Invalid\<close>, slot 1 \<^verbatim>\<open>UInt64\<close>, and \<^verbatim>\<open>UInt32\<close> slots fill the
  trace up to the reserved count. The active set is cleared; the dirty queue is
  not touched.
\<close>

definition cuda_init :: "state \<Rightarrow> state" where
  "cuda_init s =
     s\<lparr>trace := [new_Variable Invalid, new_Variable UInt64]
                 @ replicate (ENOKI_CUDA_REG_RESERVED - 2) (new_Variable UInt32),
       active := []\<rparr>"

definition cuda_shutdown :: "state \<Rightarrow> state" where
  "cuda_shutdown s = s\<lparr>trace := [], active := []\<rparr>"

subsection \<open>Reference counting\<close>

definition cuda_inc_ref_ext :: "state \<Rightarrow> nat \<Rightarrow> error + state" where
  "cuda_inc_ref_ext s index =
     (if index < ENOKI_CUDA_REG_RESERVED then Inr s
      else if \<not> index < length (trace s) then Inl AssertionFailed
      else Inr (upd_var s index (\<lambda>v. v\<lparr>ref_count_ext := ref_count_ext v + 1\<rparr>)))"

definition cuda_inc_ref_int :: "state \<Rightarrow> nat \<Rightarrow> error + state" where
  "cuda_inc_ref_int s index =
     (if index < ENOKI_CUDA_REG_RESERVED then Inr s
      else if \<not> index < length (trace s) then Inl AssertionFailed
      else Inr (upd_var s index (\<lambda>v. v\<lparr>ref_count_int := ref_count_int v + 1\<rparr>)))"

text \<open>
  \<^verbatim>\<open>cuda_dec_ref_int\<close> and \<^verbatim>\<open>cuda_var_free\<close> are mutually recursive. \<open>release_deps\<close> is
  the loop \<^verbatim>\<open>for (i < 3) { cuda_dec_ref_int(v.dep[i]); v.dep[i] = 0; }\<close> that
  \<^verbatim>\<open>cuda_var_free\<close> and the last phase of \<^verbatim>\<open>cuda_eval\<close> both run; \<^verbatim>\<open>v\<close> is a reference
  into the trace, so every slot is read from the current state.
  \<^verbatim>\<open>cuda_dec_ref_int\<close> decrements without looking at the old value.
\<close>

fun cuda_dec_ref_int :: "nat \<Rightarrow> state \<Rightarrow> nat \<Rightarrow> state res"
  and cuda_var_free :: "nat \<Rightarrow> state \<Rightarrow> nat \<Rightarrow> state res"
  and release_deps :: "nat \<Rightarrow> state \<Rightarrow> nat \<Rightarrow> nat list \<Rightarrow> state res"
where
  "cuda_dec_ref_int 0 s index = None"
| "cuda_dec_ref_int (Suc n) s index =
     (if index < ENOKI_CUDA_REG_RESERVED then Some (Inr s)
      else if trace s = [] then Some (Inl Uninitialized)
      else if \<not> index < length (trace s) then Some (Inl AssertionFailed)
      else
        let s' = upd_var s index (\<lambda>v. v\<lparr>ref_count_int := ref_count_int v - 1\<rparr>)
        in if is_collected (trace s' ! index) then cuda_var_free n s' index
           else Some (Inr s'))"
| "cuda_var_free 0 s idx = None"
| "cuda_var_free (Suc n) s idx =
     (if \<not> idx < length (trace s) then Some (Inl UndefinedBehaviour)
      else
        case release_deps n s idx [0, 1, 2] of
          None \<Rightarrow> None
        | Some (Inl e) \<Rightarrow> Some (Inl e)
        | Some (Inr s') \<Rightarrow> Some (Inr (upd_var s' idx (\<lambda>v. v\<lparr>data := 0\<rparr>))))"
| "release_deps n s idx [] = Some (Inr s)"
| "release_deps n s idx (i # slots) =
     (case cuda_dec_ref_int n s (dep_get (dep (trace s ! idx)) i) of
        None \<Rightarrow> None
      | Some (Inl e) \<Rightarrow> Some (Inl e)
      | Some (Inr s') \<Rightarrow>
          release_deps n (upd_var s' idx (\<lambda>v. v\<lparr>dep := dep_set (dep v) i 0\<rparr>)) idx slots)"

definition cuda_dec_ref_ext :: "nat \<Rightarrow> state \<Rightarrow> nat \<Rightarrow> state res" where
  "cuda_dec_ref_ext fuel s index =
     (if index < ENOKI_CUDA_REG_RESERVED \<or> trace s = [] then Some (Inr s)
      else if \<not> index < length (trace s) then Some (Inl AssertionFailed)
      else if ref_count_ext (trace s ! index) = 0 then Some (Inl NegativeRefCount)
      else
        let s1 = upd_var s index (\<lambda>v. v\<lparr>ref_count_ext := ref_count_ext v - 1\<rparr>);
            s2 = (if ref_count_ext (trace s1 ! index) = 0
                  then s1\<lparr>active := removeAll index (active s1)\<rparr> else s1)
        in if is_collected (trace s2 ! index) then cuda_var_free fuel s2 index
           else Some (Inr s2))"

definition cuda_var_mark_side_effect :: "state \<Rightarrow> nat \<Rightarrow> error + state" where
  "cuda_var_mark_side_effect s index =
     (if \<not> (ENOKI_CUDA_REG_RESERVED < index \<and> index < length (trace s))
      then Inl AssertionFailed
      else Inr (upd_var s index (\<lambda>v. v\<lparr>side_effect := True\<rparr>)))"

definition cuda_var_mark_dirty :: "state \<Rightarrow> nat \<Rightarrow> error + state" where
  "cuda_var_mark_dirty s index =
     (if \<not> (ENOKI_CUDA_REG_RESERVED < index \<and> index < length (trace s))
      then Inl AssertionFailed
      else Inr ((upd_var s index (\<lambda>v. v\<lparr>dirty := True\<rparr>))
                  \<lparr>dirty_list := dirty_list s @ [index]\<rparr>))"

subsection \<open>Appending to the trace\<close>

text \<open>
  \<open>push_node\<close> is the tail every \<^verbatim>\<open>cuda_trace_append\<close> overload shares once the
  operands are known to be clean: \<^verbatim>\<open>emplace_back\<close>, the field assignments, the
  internal references of the operands, the external reference of the new node and
  its insertion into the active set.
\<close>

fun inc_ref_int_all :: "state \<Rightarrow> nat list \<Rightarrow> error + state" where
  "inc_ref_int_all s [] = Inr s"
| "inc_ref_int_all s (a # as) =
     (case cuda_inc_ref_int s a of Inl e \<Rightarrow> Inl e | Inr s' \<Rightarrow> inc_ref_int_all s' as)"

definition cuda_trace_append0 :: "state \<Rightarrow> EnokiType \<Rightarrow> string \<Rightarrow> error + (state \<times> nat)" where
  "cuda_trace_append0 s ty c =
     (let idx = length (trace s);
          var = (new_Variable ty)\<lparr>dep := (0, 0, 0), cmd := c, subtree_size := 1\<rparr>;
          s1 = s\<lparr>trace := trace s @ [var]\<rparr>
      in case cuda_inc_ref_ext s1 idx of
           Inl e \<Rightarrow> Inl e
         | Inr s2 \<Rightarrow> Inr (s2\<lparr>active := List.insert idx (active s2)\<rparr>, idx))"

subsection \<open>Rendering an instruction template\<close>

text \<open>Decimal output of an unsigned number, as \<^verbatim>\<open>operator<<\<close> prints it.\<close>

function string_of_nat :: "nat \<Rightarrow> string" where
  "string_of_nat n =
     (if n < 10 then [char_of (48 + n)]
      else string_of_nat (n div 10) @ [char_of (48 + n mod 10)])"
  by pat_completeness auto
termination
  by (relation "measure id") auto

declare string_of_nat.simps [simp del]

text \<open>
  One \<^verbatim>\<open>$\<close> token of \<^verbatim>\<open>cuda_render_cmd\<close>: \<open>ty\<close> is \<^verbatim>\<open>cmd[i + 1]\<close>, \<open>d\<close> is \<^verbatim>\<open>cmd[i + 2]\<close>,
  and \<^verbatim>\<open>dep_offset\<close> is the \<^verbatim>\<open>uint8_t\<close> \<^verbatim>\<open>cmd[i + 2] - '0'\<close>. The range test of the
  source is the conjunction \<^verbatim>\<open>dep_offset < 1 && dep_offset > 4\<close>. An offset other
  than 1 selects \<^verbatim>\<open>dep[dep_offset - 2]\<close>, which is inside the array for 2, 3 and 4
  only.
\<close>

definition render_token ::
  "Variable list \<Rightarrow> (nat \<rightharpoonup> nat) \<Rightarrow> nat \<Rightarrow> char \<Rightarrow> char \<Rightarrow> error + string" where
  "render_token tr reg_map index ty d =
     (let dep_offset = (of_char d :: 8 word) - of_char (CHR ''0'') in
      if ty \<noteq> CHR ''t'' \<and> ty \<noteq> CHR ''b'' \<and> ty \<noteq> CHR ''r'' then Inl InvalidTemplate
      else if dep_offset < 1 \<and> dep_offset > 4 then Inl OutOfBounds
      else if dep_offset \<noteq> 1 \<and> \<not> (2 \<le> dep_offset \<and> dep_offset \<le> 4)
        then Inl UndefinedBehaviour
      else
        let dep_i = (if dep_offset = 1 then index
                     else dep_get (dep (tr ! index)) (unat dep_offset - 2))
        in if dep_i \<ge> length tr then Inl OutOfBounds
           else
             let dep_type = type_v (tr ! dep_i);
                 result = (if ty = CHR ''t'' then cuda_register_type dep_type
                           else if ty = CHR ''b'' then cuda_register_type_bin dep_type
                           else cuda_register_name dep_type)
             in case result of
                  None \<Rightarrow> Inl UnsupportedType
                | Some r \<Rightarrow>
                    if ty = CHR ''r'' then
                      (case reg_map dep_i of
                         None \<Rightarrow> Inl VariableNotFound
                       | Some n \<Rightarrow> Inr (r @ string_of_nat n))
                    else Inr r)"

text \<open>
  The scanning loop, on the part of the template from position \<^verbatim>\<open>i\<close> on. The test
  \<^verbatim>\<open>i + 2 >= cmd.length()\<close> holds exactly when fewer than three characters are
  left; then the character is copied, whatever it is.
\<close>

fun render_loop ::
  "Variable list \<Rightarrow> (nat \<rightharpoonup> nat) \<Rightarrow> nat \<Rightarrow> string \<Rightarrow> error + string" where
  "render_loop tr reg_map index (c # ty # d # rest) =
     (if c \<noteq> CHR ''$'' then
        (case render_loop tr reg_map index (ty # d # rest) of
           Inl e \<Rightarrow> Inl e
         | Inr out \<Rightarrow> Inr (c # out))
      else
        (case render_token tr reg_map index ty d of
           Inl e \<Rightarrow> Inl e
         | Inr tok \<Rightarrow>
             (case render_loop tr reg_map index rest of
                Inl e \<Rightarrow> Inl e
              | Inr out \<Rightarrow> Inr (tok @ out))))"
| "render_loop tr reg_map index (c # rest) =
     (case render_loop tr reg_map index rest of
        Inl e \<Rightarrow> Inl e
      | Inr out \<Rightarrow> Inr (c # out))"
| "render_loop tr reg_map index [] = Inr []"

definition newline :: char where
  "newline = CHR 0x0A"

definition cuda_render_cmd ::
  "Variable list \<Rightarrow> (nat \<rightharpoonup> nat) \<Rightarrow> nat \<Rightarrow> error + string" where
  "cuda_render_cmd tr reg_map index =
     (if \<not> index < length tr then Inl UndefinedBehaviour
      else
        let c = cmd (tr ! index) in
        case render_loop tr reg_map index c of
          Inl e \<Rightarrow> Inl e
        | Inr out \<Rightarrow>
            Inr (''    '' @ out @
                 (if c \<noteq> [] \<and> last c \<noteq> newline then [CHR '';'', newline] else [])))"

text \<open>
  The values the loop variable \<^verbatim>\<open>i\<close> of \<^verbatim>\<open>cuda_render_cmd\<close> takes on a template, as
  long as no token before has thrown: it starts at 0, a copied character moves
  it on by one (\<^verbatim>\<open>++i\<close>), a token by three (\<^verbatim>\<open>i += 2\<close> and \<^verbatim>\<open>++i\<close>). The letter and
  the digit of a token are read by that token and never stood on.
\<close>

fun scan_positions :: "string \<Rightarrow> nat list" where
  "scan_positions (c # ty # d # rest) =
     (if c \<noteq> CHR ''$'' then 0 # map Suc (scan_positions (ty # d # rest))
      else 0 # map (\<lambda>i. i + 3) (scan_positions rest))"
| "scan_positions (c # rest) = 0 # map Suc (scan_positions rest)"
| "scan_positions [] = []"

subsection \<open>Register allocation\<close>

text \<open>
  The loop \<^verbatim>\<open>for (index : sweep) reg_map[index] = n_vars++\<close>, started at the reserved
  count, and the one assignment \<^verbatim>\<open>reg_map[2] = 2\<close> that follows it.
\<close>

fun assign_registers :: "nat list \<Rightarrow> nat \<Rightarrow> (nat \<rightharpoonup> nat) \<Rightarrow> (nat \<rightharpoonup> nat) \<times> nat" where
  "assign_registers [] n_vars reg_map = (reg_map, n_vars)"
| "assign_registers (index # sweep) n_vars reg_map =
     assign_registers sweep (Suc n_vars) (reg_map(index \<mapsto> n_vars))"

definition build_reg_map :: "nat list \<Rightarrow> (nat \<rightharpoonup> nat) \<times> nat" where
  "build_reg_map sweep =
     (case assign_registers sweep ENOKI_CUDA_REG_RESERVED Map.empty of
        (reg_map, n_vars) \<Rightarrow> (reg_map(2 \<mapsto> 2), n_vars))"

subsection \<open>Assembling one kernel\<close>

text \<open>
  The loop body of \<^verbatim>\<open>cuda_jit_assemble\<close> for one scheduled node. The accumulator holds
  the rendered instruction lines, the argument table \<^verbatim>\<open>ptrs\<close> and the state. The
  kernel prologue and epilogue and the text of the load and store sequences are
  constant boilerplate around these lines and are not kept. \<^verbatim>\<open>var\<close> is a reference
  into the trace: after \<^verbatim>\<open>cuda_dec_ref_ext\<close> the tests read the updated node.
\<close>

type_synonym kernel = "string list \<times> nat list \<times> state"

definition cudaMalloc :: "state \<Rightarrow> nat \<times> state" where
  "cudaMalloc s = (Suc (heap_top s), s\<lparr>heap_top := Suc (heap_top s)\<rparr>)"

definition assemble_node ::
  "nat \<Rightarrow> (nat \<rightharpoonup> nat) \<Rightarrow> 64 word \<Rightarrow> nat \<Rightarrow> kernel \<Rightarrow> kernel res" where
  "assemble_node fuel reg_map sz index acc =
     (let out = fst acc; ptrs = fst (snd acc); s = snd (snd acc) in
      if \<not> index < length (trace s) then Some (Inl UndefinedBehaviour)
      else
        let var = trace s ! index in
        if is_collected var \<or> (cmd var = [] \<and> data var = 0)
          then Some (Inl (InvalidVariable index))
        else if size_v var \<noteq> 1 \<and> size_v var \<noteq> sz then Some (Inl IncompatibleSize)
        else if data var \<noteq> 0 then Some (Inr (out, ptrs @ [data var], s))
        else
          (case cuda_render_cmd (trace s) reg_map index of
             Inl e \<Rightarrow> Some (Inl e)
           | Inr line \<Rightarrow>
               (case (if side_effect var then cuda_dec_ref_ext fuel s index
                      else Some (Inr s)) of
                  None \<Rightarrow> None
                | Some (Inl e) \<Rightarrow> Some (Inl e)
                | Some (Inr s1) \<Rightarrow>
                    let var1 = trace s1 ! index in
                    if ref_count_ext var1 = 0 then Some (Inr (out @ [line], ptrs, s1))
                    else if size_v var1 \<noteq> sz then Some (Inr (out @ [line], ptrs, s1))
                    else
                      let p = fst (cudaMalloc s1); s2 = snd (cudaMalloc s1) in
                      Some (Inr (out @ [line], ptrs @ [p],
                                 upd_var s2 index (\<lambda>v. v\<lparr>data := p\<rparr>))))))"

fun assemble_loop ::
  "nat \<Rightarrow> (nat \<rightharpoonup> nat) \<Rightarrow> 64 word \<Rightarrow> nat list \<Rightarrow> kernel \<Rightarrow> kernel res" where
  "assemble_loop fuel reg_map sz [] acc = Some (Inr acc)"
| "assemble_loop fuel reg_map sz (index # sweep) acc =
     (case assemble_node fuel reg_map sz index acc of
        None \<Rightarrow> None
      | Some (Inl e) \<Rightarrow> Some (Inl e)
      | Some (Inr acc') \<Rightarrow> assemble_loop fuel reg_map sz sweep acc')"

definition cuda_jit_assemble :: "nat \<Rightarrow> state \<Rightarrow> 64 word \<Rightarrow> nat list \<Rightarrow> kernel res" where
  "cuda_jit_assemble fuel s sz sweep =
     assemble_loop fuel (fst (build_reg_map sweep)) sz sweep ([], [], s)"

subsection \<open>Scheduling\<close>

text \<open>
  \<^verbatim>\<open>prio\<close> is the lambda of \<^verbatim>\<open>sweep_recursive\<close>; it captures \<^verbatim>\<open>deps\<close> by reference, so
  each of the three tests reads the array as the earlier swaps left it.
\<close>

definition prio :: "Variable list \<Rightarrow> deps \<Rightarrow> nat \<Rightarrow> 32 word" where
  "prio tr deps i =
     (let k = dep_get deps i in
      if k \<ge> ENOKI_CUDA_REG_RESERVED then subtree_size (tr ! k) else 0)"

definition swap_deps :: "deps \<Rightarrow> nat \<Rightarrow> nat \<Rightarrow> deps" where
  "swap_deps deps i j = dep_set (dep_set deps i (dep_get deps j)) j (dep_get deps i)"

definition reorder_deps :: "Variable list \<Rightarrow> deps \<Rightarrow> deps" where
  "reorder_deps tr deps =
     (let d1 = (if prio tr deps 1 < prio tr deps 2 then swap_deps deps 0 1 else deps);
          d2 = (if prio tr d1 0 < prio tr d1 2 then swap_deps d1 0 2 else d1);
          d3 = (if prio tr d2 0 < prio tr d2 1 then swap_deps d2 0 1 else d2)
      in d3)"

definition deps_in_range :: "Variable list \<Rightarrow> deps \<Rightarrow> bool" where
  "deps_in_range tr deps =
     list_all (\<lambda>i. dep_get deps i < ENOKI_CUDA_REG_RESERVED \<or> dep_get deps i < length tr)
       [0, 1, 2]"

text \<open>
  \<^verbatim>\<open>sweep_recursive\<close> and its loop over the reordered slots. A node index or a
  dependency outside the trace is read without a check in the source.
\<close>

fun sweep_recursive ::
    "nat \<Rightarrow> Variable list \<Rightarrow> nat set \<Rightarrow> nat list \<Rightarrow> nat \<Rightarrow> (nat set \<times> nat list) res"
  and sweep_deps ::
    "nat \<Rightarrow> Variable list \<Rightarrow> nat set \<Rightarrow> nat list \<Rightarrow> nat list \<Rightarrow> (nat set \<times> nat list) res"
where
  "sweep_recursive 0 tr visited sweep idx = None"
| "sweep_recursive (Suc n) tr visited sweep idx =
     (if idx \<in> visited then Some (Inr (visited, sweep))
      else if \<not> idx < length tr then Some (Inl UndefinedBehaviour)
      else if \<not> deps_in_range tr (dep (tr ! idx)) then Some (Inl UndefinedBehaviour)
      else
        let deps = reorder_deps tr (dep (tr ! idx)) in
        case sweep_deps n tr (insert idx visited) sweep
               [dep_get deps 0, dep_get deps 1, dep_get deps 2] of
          None \<Rightarrow> None
        | Some (Inl e) \<Rightarrow> Some (Inl e)
        | Some (Inr (visited', sweep')) \<Rightarrow> Some (Inr (visited', sweep' @ [idx])))"
| "sweep_deps n tr visited sweep [] = Some (Inr (visited, sweep))"
| "sweep_deps n tr visited sweep (k # ks) =
     (if k \<ge> ENOKI_CUDA_REG_RESERVED then
        (case sweep_recursive n tr visited sweep k of
           None \<Rightarrow> None
         | Some (Inl e) \<Rightarrow> Some (Inl e)
         | Some (Inr (visited', sweep')) \<Rightarrow> sweep_deps n tr visited' sweep' ks)
      else sweep_deps n tr visited sweep ks)"

subsection \<open>Evaluation\<close>

text \<open>
  \<^verbatim>\<open>sweeps\<close> is an \<^verbatim>\<open>unordered_map\<close> from element count to a visited set and a
  schedule; here an association list in the order in which the counts first occur.
  \<^verbatim>\<open>__active\<close> is an \<^verbatim>\<open>unordered_set\<close>; the list \<open>active\<close> fixes one iteration order.
\<close>

type_synonym sweeps = "(64 word \<times> (nat set \<times> nat list)) list"

fun sweep_active :: "nat \<Rightarrow> Variable list \<Rightarrow> nat list \<Rightarrow> sweeps \<Rightarrow> sweeps res" where
  "sweep_active fuel tr [] sweeps = Some (Inr sweeps)"
| "sweep_active fuel tr (idx # rest) sweeps =
     (if \<not> idx < length tr then Some (Inl UndefinedBehaviour)
      else
        let key = size_v (tr ! idx);
            entry = (case map_of sweeps key of None \<Rightarrow> ({}, []) | Some b \<Rightarrow> b)
        in case sweep_recursive fuel tr (fst entry) (snd entry) idx of
             None \<Rightarrow> None
           | Some (Inl e) \<Rightarrow> Some (Inl e)
           | Some (Inr entry') \<Rightarrow> sweep_active fuel tr rest (AList.update key entry' sweeps))"

fun clear_dirty :: "Variable list \<Rightarrow> nat list \<Rightarrow> error + Variable list" where
  "clear_dirty tr [] = Inr tr"
| "clear_dirty tr (idx # rest) =
     (if \<not> idx < length tr then Inl UndefinedBehaviour
      else clear_dirty (tr[idx := (tr ! idx)\<lparr>dirty := False\<rparr>]) rest)"

text \<open>The last loop of \<^verbatim>\<open>cuda_eval\<close>: the edges of the materialised computed nodes.\<close>

fun collapse_edges :: "nat \<Rightarrow> state \<Rightarrow> nat list \<Rightarrow> state res" where
  "collapse_edges fuel s [] = Some (Inr s)"
| "collapse_edges fuel s (idx # rest) =
     (if \<not> idx < length (trace s) then Some (Inl UndefinedBehaviour)
      else if data (trace s ! idx) \<noteq> 0 \<and> cmd (trace s ! idx) \<noteq> [] then
        (case release_deps fuel s idx [0, 1, 2] of
           None \<Rightarrow> None
         | Some (Inl e) \<Rightarrow> Some (Inl e)
         | Some (Inr s') \<Rightarrow> collapse_edges fuel s' rest)
      else collapse_edges fuel s rest)"

text \<open>
  The loop over the buckets: assemble, run (\<^verbatim>\<open>cuda_jit_run\<close>, a driver call), collapse.
  The assembled text always starts with the kernel header, so the test
  \<^verbatim>\<open>std::get<0>(result).empty()\<close> never holds.
\<close>

fun run_sweeps :: "nat \<Rightarrow> state \<Rightarrow> sweeps \<Rightarrow> state res" where
  "run_sweeps fuel s [] = Some (Inr s)"
| "run_sweeps fuel s ((sz, entry) # rest) =
     (case cuda_jit_assemble fuel s sz (snd entry) of
        None \<Rightarrow> None
      | Some (Inl e) \<Rightarrow> Some (Inl e)
      | Some (Inr (out, ptrs, s1)) \<Rightarrow>
          (case collapse_edges fuel s1 (snd entry) of
             None \<Rightarrow> None
           | Some (Inl e) \<Rightarrow> Some (Inl e)
           | Some (Inr s2) \<Rightarrow> run_sweeps fuel s2 rest))"

definition cuda_eval :: "nat \<Rightarrow> state \<Rightarrow> state res" where
  "cuda_eval fuel s =
     (case sweep_active fuel (trace s) (active s) [] of
        None \<Rightarrow> None
      | Some (Inl e) \<Rightarrow> Some (Inl e)
      | Some (Inr sweeps) \<Rightarrow>
          (case clear_dirty (trace s) (dirty_list s) of
             Inl e \<Rightarrow> Some (Inl e)
           | Inr tr \<Rightarrow>
               run_sweeps fuel (s\<lparr>trace := tr, active := [], dirty_list := []\<rparr>) sweeps))"

subsection \<open>The append overloads with operands, and printf\<close>

text \<open>
  What the overloads share after the read-after-write test: \<^verbatim>\<open>emplace_back\<close>, the
  field assignments, \<^verbatim>\<open>cuda_inc_ref_int\<close> on each operand in order,
  \<^verbatim>\<open>cuda_inc_ref_ext\<close> on the new node, and its insertion into the active set.
\<close>

definition push_node ::
  "state \<Rightarrow> EnokiType \<Rightarrow> string \<Rightarrow> nat list \<Rightarrow> deps \<Rightarrow> 64 word \<Rightarrow> 32 word
     \<Rightarrow> error + (state \<times> nat)" where
  "push_node s ty c args d sz st =
     (let idx = length (trace s);
          var = (new_Variable ty)\<lparr>size_v := sz, dep := d, cmd := c, subtree_size := st\<rparr>;
          s1 = s\<lparr>trace := trace s @ [var]\<rparr>
      in case inc_ref_int_all s1 args of
           Inl e \<Rightarrow> Inl e
         | Inr s2 \<Rightarrow>
             (case cuda_inc_ref_ext s2 idx of
                Inl e \<Rightarrow> Inl e
              | Inr s3 \<Rightarrow> Inr (s3\<lparr>active := List.insert idx (active s3)\<rparr>, idx)))"

definition cuda_trace_append1 ::
  "nat \<Rightarrow> state \<Rightarrow> EnokiType \<Rightarrow> string \<Rightarrow> nat \<Rightarrow> (state \<times> nat) res" where
  "cuda_trace_append1 fuel s ty c arg1 =
     (if \<not> arg1 < length (trace s) then Some (Inl AssertionFailed)
      else
        case (if dirty (trace s ! arg1) then cuda_eval fuel s else Some (Inr s)) of
          None \<Rightarrow> None
        | Some (Inl e) \<Rightarrow> Some (Inl e)
        | Some (Inr s') \<Rightarrow>
            Some (push_node s' ty c [arg1] (arg1, 0, 0)
                    (size_v (trace s' ! arg1))
                    (subtree_size (trace s' ! arg1) + 1)))"

definition cuda_trace_append2 ::
  "nat \<Rightarrow> state \<Rightarrow> EnokiType \<Rightarrow> string \<Rightarrow> nat \<Rightarrow> nat \<Rightarrow> (state \<times> nat) res" where
  "cuda_trace_append2 fuel s ty c arg1 arg2 =
     (if \<not> (arg1 < length (trace s) \<and> arg2 < length (trace s)) then Some (Inl AssertionFailed)
      else
        case (if dirty (trace s ! arg1) \<or> dirty (trace s ! arg2)
              then cuda_eval fuel s else Some (Inr s)) of
          None \<Rightarrow> None
        | Some (Inl e) \<Rightarrow> Some (Inl e)
        | Some (Inr s') \<Rightarrow>
            Some (push_node s' ty c [arg1, arg2] (arg1, arg2, 0)
                    (max (size_v (trace s' ! arg1)) (size_v (trace s' ! arg2)))
                    (subtree_size (trace s' ! arg1) + subtree_size (trace s' ! arg2) + 1)))"

definition cuda_trace_append3 ::
  "nat \<Rightarrow> state \<Rightarrow> EnokiType \<Rightarrow> string \<Rightarrow> nat \<Rightarrow> nat \<Rightarrow> nat \<Rightarrow> (state \<times> nat) res" where
  "cuda_trace_append3 fuel s ty c arg1 arg2 arg3 =
     (if \<not> (arg1 < length (trace s) \<and> arg2 < length (trace s) \<and> arg3 < length (trace s))
        then Some (Inl AssertionFailed)
      else
        case (if dirty (trace s ! arg1) \<or> dirty (trace s ! arg2) \<or> dirty (trace s ! arg3)
              then cuda_eval fuel s else Some (Inr s)) of
          None \<Rightarrow> None
        | Some (Inl e) \<Rightarrow> Some (Inl e)
        | Some (Inr s') \<Rightarrow>
            Some (push_node s' ty c [arg1, arg2, arg3] (arg1, arg2, arg3)
                    (max (max (size_v (trace s' ! arg1)) (size_v (trace s' ! arg2)))
                         (size_v (trace s' ! arg3)))
                    (subtree_size (trace s' ! arg1) + subtree_size (trace s' ! arg2)
                       + subtree_size (trace s' ! arg3) + 1)))"

text \<open>
  \<^verbatim>\<open>cuda_var_register\<close> publishes a device buffer: no instruction, the parent in the
  first dependency slot.
\<close>

definition cuda_var_register ::
  "state \<Rightarrow> EnokiType \<Rightarrow> 64 word \<Rightarrow> nat \<Rightarrow> nat \<Rightarrow> bool \<Rightarrow> error + (state \<times> nat)" where
  "cuda_var_register s ty sz ptr parent dealloc =
     (let idx = length (trace s);
          var = (new_Variable ty)\<lparr>dep := (parent, 0, 0), cmd := [], data := ptr,
                                   size_v := sz, free_v := dealloc\<rparr>;
          s1 = s\<lparr>trace := trace s @ [var]\<rparr>
      in case cuda_inc_ref_ext s1 idx of
           Inl e \<Rightarrow> Inl e
         | Inr s2 \<Rightarrow>
             (case cuda_inc_ref_int s2 parent of
                Inl e \<Rightarrow> Inl e
              | Inr s3 \<Rightarrow> Inr (s3, idx)))"

text \<open>
  The text \<^verbatim>\<open>cuda_trace_printf\<close> builds. \<open>fmt_bytes\<close> is the loop that prints every
  byte of the format string as \<^verbatim>\<open>(unsigned) fmt[i]\<close>, the terminating zero last;
  \<open>printf_args\<close> is the loop over the arguments with its assertion.
\<close>

definition char_as_unsigned :: "char \<Rightarrow> nat" where
  "char_as_unsigned c = (let n = of_char c in if n < 128 then n else 2 ^ 32 - 256 + n)"

fun fmt_bytes :: "string \<Rightarrow> string" where
  "fmt_bytes [] = ''0''"
| "fmt_bytes (c # cs) =
     (if c = CHR 0x00 then ''0''
      else string_of_nat (char_as_unsigned c) @ '', '' @ fmt_bytes cs)"

fun printf_args :: "Variable list \<Rightarrow> nat \<Rightarrow> nat list \<Rightarrow> error + string" where
  "printf_args tr i [] = Inr []"
| "printf_args tr i (a # as) =
     (if \<not> a < length tr then Inl AssertionFailed
      else
        case printf_args tr (Suc i) as of
          Inl e \<Rightarrow> Inl e
        | Inr rest \<Rightarrow>
            Inr ((if type_v (tr ! a) = Float32 then
                    ''        cvt.f64.f32 %d0, $r'' @ string_of_nat (i + 2) @ '';'' @ [newline]
                    @ ''        st.local.f64 [buf + '' @ string_of_nat (i * 8) @ ''], %d0;''
                    @ [newline]
                  else
                    ''        st.local.$t'' @ string_of_nat (i + 2) @ '' [buf + ''
                    @ string_of_nat (i * 8) @ ''], $r'' @ string_of_nat (i + 2) @ '';''
                    @ [newline])
                 @ rest))"

definition printf_text :: "string \<Rightarrow> nat \<Rightarrow> string \<Rightarrow> string" where
  "printf_text fmt narg body =
     ''{'' @ [newline]
     @ ''        .global .align 1 .b8 fmt[] = {'' @ fmt_bytes fmt @ ''};'' @ [newline]
     @ ''        .local .align 8 .b8 buf['' @ string_of_nat (8 * narg) @ ''];'' @ [newline]
     @ ''        .reg.b64 %fmt_r, %buf_r;'' @ [newline]
     @ body
     @ ''        cvta.global.u64 %fmt_r, fmt;'' @ [newline]
     @ ''        cvta.local.u64 %buf_r, buf;'' @ [newline]
     @ ''        {'' @ [newline]
     @ ''            .param .b64 fmt_p;'' @ [newline]
     @ ''            .param .b64 buf_p;'' @ [newline]
     @ ''            .param .b32 rv_p;'' @ [newline]
     @ ''            st.param.b64 [fmt_p], %fmt_r;'' @ [newline]
     @ ''            st.param.b64 [buf_p], %buf_r;'' @ [newline]
     @ ''            call.uni (rv_p), vprintf, (fmt_p, buf_p);'' @ [newline]
     @ ''        }'' @ [newline]
     @ ''    }'' @ [newline]"

text \<open>
  \<^verbatim>\<open>cuda_trace_printf\<close>. The local \<^verbatim>\<open>idx\<close> is initialised to 0; the four calls of
  \<^verbatim>\<open>cuda_trace_append\<close> are statements whose result is dropped, so \<^verbatim>\<open>idx\<close> is still 0
  when it is handed to \<^verbatim>\<open>cuda_var_mark_side_effect\<close>.
\<close>

definition printf_append :: "nat \<Rightarrow> state \<Rightarrow> string \<Rightarrow> nat list \<Rightarrow> (state \<times> nat) res" where
  "printf_append fuel s text arg =
     (case arg of
        [] \<Rightarrow> Some (cuda_trace_append0 s UInt32 text)
      | [a0] \<Rightarrow> cuda_trace_append1 fuel s UInt32 text a0
      | [a0, a1] \<Rightarrow> cuda_trace_append2 fuel s UInt32 text a0 a1
      | [a0, a1, a2] \<Rightarrow> cuda_trace_append3 fuel s UInt32 text a0 a1 a2
      | _ \<Rightarrow> Some (Inl TooManyPrintArgs))"

definition cuda_trace_printf :: "nat \<Rightarrow> state \<Rightarrow> string \<Rightarrow> nat list \<Rightarrow> state res" where
  "cuda_trace_printf fuel s fmt arg =
     (case printf_args (trace s) 0 arg of
        Inl e \<Rightarrow> Some (Inl e)
      | Inr body \<Rightarrow>
          (let idx = 0 in
           case printf_append fuel s (printf_text fmt (length arg) body) arg of
             None \<Rightarrow> None
           | Some (Inl e) \<Rightarrow> Some (Inl e)
           | Some (Inr appended) \<Rightarrow>
               (case cuda_var_mark_side_effect (fst appended) idx of
                  Inl e \<Rightarrow> Some (Inl e)
                | Inr s' \<Rightarrow> Some (Inr s'))))"

subsection \<open>How a node may change while references are released\<close>

text \<open>
  The relations used to follow the trace through the release cascade and through
  an evaluation. \<open>same_static\<close>: the fields no reference counting operation
  writes. \<open>grows\<close>: besides, an external count that is zero stays zero, a
  dependency slot is kept or zeroed, and a device pointer is only lost by a node
  without external reference. \<open>evolves\<close>: moreover no device pointer is gained and
  the external count is unchanged.
\<close>

definition same_static :: "Variable \<Rightarrow> Variable \<Rightarrow> bool" where
  "same_static v v' =
     (type_v v' = type_v v \<and> cmd v' = cmd v \<and> comment v' = comment v
      \<and> size_v v' = size_v v \<and> side_effect v' = side_effect v \<and> dirty v' = dirty v
      \<and> free_v v' = free_v v \<and> subtree_size v' = subtree_size v)"

fun dep_le :: "deps \<Rightarrow> deps \<Rightarrow> bool" where
  "dep_le (a, b, c) (a', b', c') =
     ((a' = a \<or> a' = 0) \<and> (b' = b \<or> b' = 0) \<and> (c' = c \<or> c' = 0))"

definition grows :: "Variable \<Rightarrow> Variable \<Rightarrow> bool" where
  "grows v v' =
     (same_static v v'
      \<and> (ref_count_ext v' = 0 \<or> ref_count_ext v \<noteq> 0)
      \<and> dep_le (dep v) (dep v')
      \<and> (data v' \<noteq> 0 \<or> data v = 0 \<or> ref_count_ext v' = 0))"

definition evolves :: "Variable \<Rightarrow> Variable \<Rightarrow> bool" where
  "evolves v v' =
     (grows v v' \<and> (data v' = data v \<or> data v' = 0) \<and> ref_count_ext v' = ref_count_ext v)"

definition gstep :: "state \<Rightarrow> state \<Rightarrow> bool" where
  "gstep s s' =
     (list_all2 grows (trace s) (trace s') \<and> set (active s') \<subseteq> set (active s)
      \<and> dirty_list s' = dirty_list s)"

definition step :: "state \<Rightarrow> state \<Rightarrow> bool" where
  "step s s' =
     (list_all2 evolves (trace s) (trace s') \<and> set (active s') \<subseteq> set (active s)
      \<and> dirty_list s' = dirty_list s \<and> heap_top s' = heap_top s)"

text \<open>
  \<open>kept\<close>: nothing but the internal count differs, which is all that
  \<^verbatim>\<open>cuda_inc_ref_int\<close> writes.
\<close>

definition kept :: "Variable \<Rightarrow> Variable \<Rightarrow> bool" where
  "kept v v' =
     (same_static v v' \<and> data v' = data v \<and> dep v' = dep v
      \<and> ref_count_ext v' = ref_count_ext v)"

definition only_int :: "state \<Rightarrow> state \<Rightarrow> bool" where
  "only_int s s' =
     (list_all2 kept (trace s) (trace s') \<and> active s' = active s
      \<and> dirty_list s' = dirty_list s \<and> heap_top s' = heap_top s)"

text \<open>
  Every node whose dirty flag is set is in the dirty queue: \<^verbatim>\<open>cuda_var_mark_dirty\<close>,
  the only writer of the flag, queues the node, and only \<^verbatim>\<open>cuda_eval\<close> empties the
  queue.
\<close>

definition dirty_inv :: "state \<Rightarrow> bool" where
  "dirty_inv s =
     list_all (\<lambda>i. i \<in> set (dirty_list s) \<or> \<not> dirty (trace s ! i)) [0..<length (trace s)]"

text \<open>
  \<open>collapsed\<close>: a computed node that holds a device pointer has no dependency
  left. \<open>stored sz\<close>: a computed node of element count \<open>sz\<close> that is externally
  referenced holds a device pointer.
\<close>

definition collapsed :: "Variable \<Rightarrow> bool" where
  "collapsed v = (data v = 0 \<or> cmd v = [] \<or> dep v = (0, 0, 0))"

definition stored :: "64 word \<Rightarrow> Variable \<Rightarrow> bool" where
  "stored sz v = (cmd v = [] \<or> data v \<noteq> 0 \<or> ref_count_ext v = 0 \<or> size_v v \<noteq> sz)"

text \<open>
  \<open>schedule_ok\<close>: the entry of a bucket as \<^verbatim>\<open>cuda_eval\<close> keeps it. The visited set
  is the set of the scheduled nodes, no node is scheduled twice, and every
  scheduled node is a non-reserved index inside the trace.
\<close>

definition schedule_ok :: "Variable list \<Rightarrow> nat set \<times> nat list \<Rightarrow> bool" where
  "schedule_ok tr entry =
     (fst entry = set (snd entry) \<and> distinct (snd entry)
      \<and> list_all (\<lambda>i. ENOKI_CUDA_REG_RESERVED \<le> i \<and> i < length tr) (snd entry))"

subsection \<open>Example traces\<close>

text \<open>
  The states the concrete statements below are evaluated on, each built with the
  operations above from the freshly initialised trace. \<open>ok\<close> reads the value of
  an operation that returned.
\<close>

definition ok :: "'a res \<Rightarrow> 'a" where
  "ok r = projr (the r)"

definition empty_state :: state where
  "empty_state = \<lparr>trace = [], active = [], dirty_list = [], heap_top = 0\<rparr>"

definition fresh :: state where
  "fresh = cuda_init empty_state"

text \<open>One node, index 10, with its external reference and no consumer.\<close>

definition one_node :: state where
  "one_node = fst (projr (cuda_trace_append0 fresh UInt32 ''mov.u32 $r1, 1''))"

text \<open>Two nodes, 10 and 11; node 11 is marked as a side effect.\<close>

definition two_nodes :: state where
  "two_nodes = fst (projr (cuda_trace_append0 one_node UInt32 ''mov.u32 $r1, 2''))"

definition with_side_effect :: state where
  "with_side_effect = projr (cuda_var_mark_side_effect two_nodes 11)"

text \<open>
  Three independent operands of subtree size 1 (node 10), 2 (node 12, over 11)
  and 3 (node 15, over 14 and 13), and node 16 that consumes them in this order.
\<close>

definition three_operands :: state where
  "three_operands =
     (let s10 = one_node;
          s11 = fst (projr (cuda_trace_append0 s10 UInt32 ''mov.u32 $r1, 2''));
          s12 = fst (ok (cuda_trace_append1 0 s11 UInt32 ''add.u32 $r1, $r2, 1'' 11));
          s13 = fst (projr (cuda_trace_append0 s12 UInt32 ''mov.u32 $r1, 3''));
          s14 = fst (ok (cuda_trace_append1 0 s13 UInt32 ''add.u32 $r1, $r2, 1'' 13));
          s15 = fst (ok (cuda_trace_append1 0 s14 UInt32 ''add.u32 $r1, $r2, 1'' 14))
      in fst (ok (cuda_trace_append3 0 s15 UInt32 ''mad.lo.u32 $r1, $r2, $r3, $r4'' 10 12 15)))"

text \<open>
  Single nodes at index 10 whose templates end in \<^verbatim>\<open>$\<close>, end in \<^verbatim>\<open>$L\<close>, and hold
  the unknown token \<^verbatim>\<open>$q1\<close>; and a node that reads the reserved register 1 through
  its first operand.
\<close>

definition dollar_node :: state where
  "dollar_node = fst (projr (cuda_trace_append0 fresh UInt32 ''exit $''))"

definition dollar_letter_node :: state where
  "dollar_letter_node = fst (projr (cuda_trace_append0 fresh UInt32 ''bra $L''))"

definition bad_letter_node :: state where
  "bad_letter_node = fst (projr (cuda_trace_append0 fresh UInt32 ''mov.u32 $q1, 1''))"

text \<open>
  Single nodes at index 10 whose templates hold the unknown token \<^verbatim>\<open>$q1\<close> after a
  well-formed one, end in \<^verbatim>\<open>$\<close> after a token, and end in a \<^verbatim>\<open>$\<close> that is the digit
  of the token before it.
\<close>

definition second_bad_letter_node :: state where
  "second_bad_letter_node = fst (projr (cuda_trace_append0 fresh UInt32 ''add.$t1 $q1, 1''))"

definition token_then_dollar_node :: state where
  "token_then_dollar_node = fst (projr (cuda_trace_append0 fresh UInt32 ''ld.$t1 $''))"

definition dollar_as_digit_node :: state where
  "dollar_as_digit_node = fst (projr (cuda_trace_append0 fresh UInt32 ''ab$t$''))"


text \<open>Nodes 10 and 11 again; node 11 has been marked dirty.\<close>

definition with_dirty :: state where
  "with_dirty = projr (cuda_var_mark_dirty two_nodes 11)"

section \<open>Properties\<close>

subsection \<open>Marking nodes\<close>

lemma length_trace_cuda_init: "length (trace (cuda_init s)) = ENOKI_CUDA_REG_RESERVED"
  by (simp add: cuda_init_def ENOKI_CUDA_REG_RESERVED_def)

text \<open>
  C10. Both marking operations assert \<^verbatim>\<open>index > ENOKI_CUDA_REG_RESERVED\<close>, so they
  succeed exactly on the indices strictly above the reserved count (10) and inside
  the trace, and fail on index 10 itself. Yet \<^verbatim>\<open>cuda_init\<close> fills exactly the slots
  0..9, so 10 is the index the first append after it returns, and marking that
  very node fails the assertion.
\<close>

theorem mark_rejects_first_user_index:
  "ENOKI_CUDA_REG_RESERVED = 10
   \<and> cuda_var_mark_side_effect s ENOKI_CUDA_REG_RESERVED = Inl AssertionFailed
   \<and> cuda_var_mark_dirty s ENOKI_CUDA_REG_RESERVED = Inl AssertionFailed
   \<and> ((\<exists>s'. cuda_var_mark_side_effect s i = Inr s')
        = (ENOKI_CUDA_REG_RESERVED < i \<and> i < length (trace s)))
   \<and> ((\<exists>s'. cuda_var_mark_dirty s i = Inr s')
        = (ENOKI_CUDA_REG_RESERVED < i \<and> i < length (trace s)))
   \<and> length (trace (cuda_init s)) = ENOKI_CUDA_REG_RESERVED
   \<and> (\<exists>s'. cuda_trace_append0 (cuda_init s) ty c = Inr (s', ENOKI_CUDA_REG_RESERVED)
            \<and> cuda_var_mark_side_effect s' ENOKI_CUDA_REG_RESERVED = Inl AssertionFailed
            \<and> cuda_var_mark_dirty s' ENOKI_CUDA_REG_RESERVED = Inl AssertionFailed)"
  by (simp add: cuda_var_mark_side_effect_def cuda_var_mark_dirty_def
      cuda_trace_append0_def Let_def cuda_inc_ref_ext_def length_trace_cuda_init)
    (simp add: ENOKI_CUDA_REG_RESERVED_def)

subsection \<open>printf\<close>

text \<open>
  C2. \<^verbatim>\<open>cuda_trace_printf\<close> does not mark the node its append produced: it marks
  index 0. With the assertion of \<^verbatim>\<open>cuda_var_mark_side_effect\<close> in force no call
  returns at all, whatever the arguments; on the fresh trace the call without
  arguments appends node 10 and then fails the assertion on index 0, and four
  arguments are refused.
\<close>

theorem cuda_trace_printf_marks_index_zero:
  "cuda_trace_printf fuel s fmt arg \<noteq> Some (Inr s')
   \<and> cuda_trace_printf fuel fresh ''hi'' [] = Some (Inl AssertionFailed)
   \<and> (\<exists>s1. printf_append fuel fresh (printf_text ''hi'' 0 []) [] = Some (Inr (s1, 10))
            \<and> \<not> side_effect (trace s1 ! 10))
   \<and> cuda_trace_printf fuel fresh ''hi'' [1, 2, 3, 4] = Some (Inl TooManyPrintArgs)"
proof -
  have a: "cuda_trace_printf fuel s fmt arg \<noteq> Some (Inr s')"
    by (auto simp: cuda_trace_printf_def cuda_var_mark_side_effect_def Let_def
        split: sum.splits option.splits)
  have l: "length (trace fresh) = 10"
    by (simp add: fresh_def length_trace_cuda_init ENOKI_CUDA_REG_RESERVED_def)
  have b: "cuda_trace_printf fuel fresh ''hi'' [] = Some (Inl AssertionFailed)"
    by (simp add: cuda_trace_printf_def printf_append_def cuda_trace_append0_def Let_def
        cuda_inc_ref_ext_def cuda_var_mark_side_effect_def l split: sum.splits)
  have c: "\<exists>s1. printf_append fuel fresh (printf_text ''hi'' 0 []) [] = Some (Inr (s1, 10))
            \<and> \<not> side_effect (trace s1 ! 10)"
    by (simp add: printf_append_def cuda_trace_append0_def Let_def cuda_inc_ref_ext_def l
        ENOKI_CUDA_REG_RESERVED_def upd_var_def nth_append new_Variable_def)
  have d: "cuda_trace_printf fuel fresh ''hi'' [1, 2, 3, 4] = Some (Inl TooManyPrintArgs)"
    by (simp add: cuda_trace_printf_def printf_append_def l)
  from a b c d show ?thesis by blast
qed

subsection \<open>Decrementing a reference count that is zero\<close>

text \<open>
  C4. Node 10 of \<open>one_node\<close> has one external and no internal reference.
  \<^verbatim>\<open>cuda_dec_ref_int\<close> has no test of the old value: the internal count of node 10
  wraps around to \<open>2^32 - 1\<close> and the call returns normally. \<^verbatim>\<open>cuda_dec_ref_ext\<close>
  does test: once the external count is 0, a second decrement throws.
\<close>

theorem cuda_dec_ref_int_wraps_at_zero:
  "ref_count_int (trace one_node ! 10) = 0
   \<and> cuda_dec_ref_int 1 one_node 10
       = Some (Inr (upd_var one_node 10 (\<lambda>v. v\<lparr>ref_count_int := 4294967295\<rparr>)))
   \<and> ref_count_ext (trace (ok (cuda_dec_ref_ext 2 one_node 10)) ! 10) = 0
   \<and> cuda_dec_ref_ext 2 (ok (cuda_dec_ref_ext 2 one_node 10)) 10
       = Some (Inl NegativeRefCount)"
  by code_simp

subsection \<open>Template expansion\<close>

lemma render_loop_copy:
  assumes "c \<noteq> CHR ''$''"
  shows "render_loop tr rm i (c # xs) =
     (case render_loop tr rm i xs of Inl e \<Rightarrow> Inl e | Inr out \<Rightarrow> Inr (c # out))"
proof (cases xs)
  case Nil
  then show ?thesis by simp
next
  case (Cons a ys)
  then show ?thesis using assms by (cases ys) simp_all
qed

lemma render_loop_prefix:
  "CHR ''$'' \<notin> set pre \<Longrightarrow>
   render_loop tr rm i (pre @ xs) =
     (case render_loop tr rm i xs of Inl e \<Rightarrow> Inl e | Inr out \<Rightarrow> Inr (pre @ out))"
  by (induction pre) (auto simp: render_loop_copy split: sum.splits)

lemma render_loop_plain:
  "CHR ''$'' \<notin> set pre \<Longrightarrow> render_loop tr rm i pre = Inr pre"
  using render_loop_prefix[of pre tr rm i "[]"] by simp

lemma render_loop_bad_letter:
  "ty \<noteq> CHR ''t'' \<Longrightarrow> ty \<noteq> CHR ''b'' \<Longrightarrow> ty \<noteq> CHR ''r'' \<Longrightarrow>
   render_loop tr rm i (CHR ''$'' # ty # d # rest) = Inl InvalidTemplate"
  by (simp add: render_token_def Let_def)

lemma render_loop_short:
  "length suf \<le> 1 \<Longrightarrow> render_loop tr rm i (CHR ''$'' # suf) = Inr (CHR ''$'' # suf)"
  by (cases suf) auto

text \<open>
  The scanner and its positions. The expansion of a template splits at every
  position the scanner stands on; a position is below the length; the first \<^verbatim>\<open>$\<close>
  of a template is always stood on; and every position of a template is stood on
  or is the letter or the digit of a token whose \<^verbatim>\<open>$\<close> is stood on.
\<close>

lemma scan_positions_less: "p \<in> set (scan_positions c) \<Longrightarrow> p < length c"
  by (induction c arbitrary: p rule: scan_positions.induct) (auto split: if_splits)

lemma render_loop_split:
  "p \<in> set (scan_positions c) \<Longrightarrow>
   render_loop tr rm i c =
     (case render_loop tr rm i (take p c) of
        Inl e \<Rightarrow> Inl e
      | Inr a \<Rightarrow> (case render_loop tr rm i (drop p c) of
                     Inl e \<Rightarrow> Inl e
                   | Inr b \<Rightarrow> Inr (a @ b)))"
proof (induction c arbitrary: p rule: scan_positions.induct)
  case (1 c ty d rest)
  show ?case
  proof (cases "p = 0")
    case True
    then show ?thesis by (simp split: sum.splits)
  next
    case p0: False
    show ?thesis
    proof (cases "c = CHR ''$''")
      case False
      with 1(3) p0 obtain q where q: "p = Suc q" "q \<in> set (scan_positions (ty # d # rest))"
        by auto
      from 1(1)[OF False q(2)] False show ?thesis
        unfolding q(1) by (simp add: render_loop_copy split: sum.splits del: render_loop.simps)
    next
      case True
      with 1(3) p0 obtain q where q: "p = q + 3" "q \<in> set (scan_positions rest)"
        by auto
      have tk: "take p (c # ty # d # rest) = c # ty # d # take q rest"
        and dr: "drop p (c # ty # d # rest) = drop q rest"
        unfolding q(1) by (simp_all add: numeral_3_eq_3)
      from 1(2)[OF _ q(2)] True show ?thesis
        unfolding tk dr by (simp split: sum.splits)
    qed
  qed
qed (auto split: sum.splits)

lemma scan_positions_first:
  "CHR ''$'' \<notin> set pre \<Longrightarrow> length pre \<in> set (scan_positions (pre @ x # xs))"
proof (induction pre)
  case Nil
  show ?case by (cases "x # xs" rule: scan_positions.cases) (auto split: if_splits)
next
  case (Cons a pre)
  then have IH: "length pre \<in> set (scan_positions (pre @ x # xs))" and a: "a \<noteq> CHR ''$''"
    by auto
  show ?case
  proof (cases "pre @ x # xs")
    case Nil
    then show ?thesis by simp
  next
    case (Cons b ys)
    show ?thesis
    proof (cases ys)
      case Nil
      with Cons IH show ?thesis by simp
    next
      case (Cons c zs)
      with \<open>pre @ x # xs = b # ys\<close> IH a show ?thesis by simp
    qed
  qed
qed

lemma scan_positions_cover:
  "p < length c \<Longrightarrow>
   p \<in> set (scan_positions c)
   \<or> (\<exists>q\<in>set (scan_positions c). c ! q = CHR ''$'' \<and> q + 2 < length c \<and> (p = q + 1 \<or> p = q + 2))"
proof (induction c arbitrary: p rule: scan_positions.induct)
  case (1 c ty d rest)
  show ?case
  proof (cases "c = CHR ''$''")
    case False
    show ?thesis
    proof (cases p)
      case 0
      then show ?thesis by simp
    next
      case (Suc p')
      with 1(3) have "p' < length (ty # d # rest)" by simp
      from 1(1)[OF False this] False Suc show ?thesis by auto
    qed
  next
    case True
    consider "p = 0" | "p = 1" | "p = 2" | p' where "p = p' + 3"
      by atomize_elim presburger
    then show ?thesis
    proof cases
      case 1 then show ?thesis by simp
    next
      case 2 with True show ?thesis by simp
    next
      case 3 with True show ?thesis by simp
    next
      case 4
      with 1(3) have "p' < length rest" by simp
      from 1(2)[OF _ this] True 4 show ?thesis by (auto simp: numeral_3_eq_3)
    qed
  qed
qed (auto simp: less_Suc_eq)

text \<open>
  C5, as the code has it. Let the scanner stand on a \<^verbatim>\<open>$\<close> of the template, at
  position \<open>p\<close>. If at least two characters follow and the first of them is none
  of \<^verbatim>\<open>t\<close>, \<^verbatim>\<open>b\<close>, \<^verbatim>\<open>r\<close>, the expansion fails and produces no text; the error is the
  invalid-template one whenever the part of the template before \<open>p\<close> expands. If
  fewer than two characters follow, the \<^verbatim>\<open>$\<close> is no error: the expansion is that
  of the part before \<open>p\<close>, followed by the \<^verbatim>\<open>$\<close> and what follows it as they are,
  and by the closing \<^verbatim>\<open>;\<close> and newline as for any template.
\<close>

theorem cuda_render_cmd_dollar:
  assumes "index < length tr"
    and "p \<in> set (scan_positions (cmd (tr ! index)))"
    and "cmd (tr ! index) ! p = CHR ''$''"
  shows
    "(p + 2 < length (cmd (tr ! index))
        \<and> cmd (tr ! index) ! (p + 1) \<noteq> CHR ''t''
        \<and> cmd (tr ! index) ! (p + 1) \<noteq> CHR ''b''
        \<and> cmd (tr ! index) ! (p + 1) \<noteq> CHR ''r'' \<longrightarrow>
          (\<exists>e. cuda_render_cmd tr reg_map index = Inl e)
        \<and> ((\<exists>a. render_loop tr reg_map index (take p (cmd (tr ! index))) = Inr a) \<longrightarrow>
              cuda_render_cmd tr reg_map index = Inl InvalidTemplate))
     \<and> (length (cmd (tr ! index)) \<le> p + 2 \<longrightarrow>
          cuda_render_cmd tr reg_map index =
            (case render_loop tr reg_map index (take p (cmd (tr ! index))) of
               Inl e \<Rightarrow> Inl e
             | Inr a \<Rightarrow>
                 Inr (''    '' @ a @ drop p (cmd (tr ! index)) @
                      (if last (cmd (tr ! index)) \<noteq> newline then [CHR '';'', newline]
                       else []))))"
proof -
  let ?c = "cmd (tr ! index)"
  let ?R = "render_loop tr reg_map index"
  note S = render_loop_split[OF assms(2), of tr reg_map index]
  from scan_positions_less[OF assms(2)] have pl: "p < length ?c" .
  then have ne: "?c \<noteq> []" by auto
  have d0: "drop p ?c = CHR ''$'' # drop (Suc p) ?c"
    using pl assms(3) by (simp add: Cons_nth_drop_Suc[symmetric])
  have bad: "(\<exists>e. cuda_render_cmd tr reg_map index = Inl e)
        \<and> ((\<exists>a. ?R (take p ?c) = Inr a) \<longrightarrow> cuda_render_cmd tr reg_map index = Inl InvalidTemplate)"
    if l: "p + 2 < length ?c" and t: "?c ! (p + 1) \<noteq> CHR ''t''"
      "?c ! (p + 1) \<noteq> CHR ''b''" "?c ! (p + 1) \<noteq> CHR ''r''"
  proof -
    from l have d1: "drop (Suc p) ?c = ?c ! (p + 1) # drop (p + 2) ?c"
      by (simp add: Cons_nth_drop_Suc[symmetric])
    from l have d2: "drop (p + 2) ?c = ?c ! (p + 2) # drop (p + 3) ?c"
      by (simp add: Cons_nth_drop_Suc[symmetric] numeral_3_eq_3)
    have "?R (drop p ?c) = Inl InvalidTemplate"
      unfolding d0 d1 d2 using t by (rule render_loop_bad_letter)
    with S have "?R ?c = (case ?R (take p ?c) of Inl e \<Rightarrow> Inl e | Inr a \<Rightarrow> Inl InvalidTemplate)"
      by (simp split: sum.splits)
    then show ?thesis
      using assms(1) by (auto simp: cuda_render_cmd_def split: sum.splits)
  qed
  have short: "cuda_render_cmd tr reg_map index =
            (case ?R (take p ?c) of
               Inl e \<Rightarrow> Inl e
             | Inr a \<Rightarrow>
                 Inr (''    '' @ a @ drop p ?c @
                      (if last ?c \<noteq> newline then [CHR '';'', newline] else [])))"
    if l: "length ?c \<le> p + 2"
  proof -
    from l have "length (drop (Suc p) ?c) \<le> 1" by simp
    then have "?R (drop p ?c) = Inr (drop p ?c)"
      unfolding d0 by (rule render_loop_short)
    with S have "?R ?c = (case ?R (take p ?c) of Inl e \<Rightarrow> Inl e | Inr a \<Rightarrow> Inr (a @ drop p ?c))"
      by (simp split: sum.splits)
    then show ?thesis
      using assms(1) ne by (simp add: cuda_render_cmd_def split: sum.splits)
  qed
  from bad short show ?thesis by blast
qed

theorem cuda_render_cmd_dollar_witness:
  "8 \<in> set (scan_positions (cmd (trace second_bad_letter_node ! 10)))
   \<and> cuda_render_cmd (trace second_bad_letter_node) Map.empty 10 = Inl InvalidTemplate
   \<and> 7 \<in> set (scan_positions (cmd (trace token_then_dollar_node ! 10)))
   \<and> cuda_render_cmd (trace token_then_dollar_node) Map.empty 10
       = Inr (''    ld.u32 $;'' @ [newline])"
proof -
  let ?a = "trace second_bad_letter_node"
  let ?b = "trace token_then_dollar_node"
  have a1: "10 < length ?a" by code_simp
  have a2: "8 \<in> set (scan_positions (cmd (?a ! 10)))" by code_simp
  have a3: "cmd (?a ! 10) ! 8 = CHR ''$''" by code_simp
  have a4: "8 + 2 < length (cmd (?a ! 10))" by code_simp
  have a5: "cmd (?a ! 10) ! (8 + 1) \<noteq> CHR ''t''" "cmd (?a ! 10) ! (8 + 1) \<noteq> CHR ''b''"
    "cmd (?a ! 10) ! (8 + 1) \<noteq> CHR ''r''" by code_simp+
  have a6: "render_loop ?a Map.empty 10 (take 8 (cmd (?a ! 10))) = Inr ''add.u32 ''"
    by code_simp
  have b1: "10 < length ?b" by code_simp
  have b2: "7 \<in> set (scan_positions (cmd (?b ! 10)))" by code_simp
  have b3: "cmd (?b ! 10) ! 7 = CHR ''$''" by code_simp
  have b4: "length (cmd (?b ! 10)) \<le> 7 + 2" by code_simp
  have b5: "render_loop ?b Map.empty 10 (take 7 (cmd (?b ! 10))) = Inr ''ld.u32 ''"
    by code_simp
  have b6: "drop 7 (cmd (?b ! 10)) = ''$''" "last (cmd (?b ! 10)) \<noteq> newline" by code_simp+
  from cuda_render_cmd_dollar [OF a1 a2 a3, of Map.empty] a4 a5 a6
  have A: "cuda_render_cmd ?a Map.empty 10 = Inl InvalidTemplate" by blast
  from cuda_render_cmd_dollar [OF b1 b2 b3, of Map.empty] b4
  have "cuda_render_cmd ?b Map.empty 10 =
            (case render_loop ?b Map.empty 10 (take 7 (cmd (?b ! 10))) of
               Inl e \<Rightarrow> Inl e
             | Inr a \<Rightarrow>
                 Inr (''    '' @ a @ drop 7 (cmd (?b ! 10)) @
                      (if last (cmd (?b ! 10)) \<noteq> newline then [CHR '';'', newline]
                       else [])))" by blast
  then have B: "cuda_render_cmd ?b Map.empty 10 = Inr (''    ld.u32 $;'' @ [newline])"
    unfolding b5 b6(1) using b6(2) by simp
  from a2 A b2 B show ?thesis by blast
qed

text \<open>
  The claim as stated fails on the template \<^verbatim>\<open>exit $\<close>: its \<^verbatim>\<open>$\<close> is the last
  character, and the expansion returns the text with the \<^verbatim>\<open>$\<close> in it.
\<close>

theorem cuda_render_cmd_trailing_dollar_emitted:
  "cuda_render_cmd (trace dollar_node) (fst (build_reg_map [10])) 10
     = Inr (''    exit $;'' @ [newline])"
  by code_simp

text \<open>
  A \<^verbatim>\<open>$\<close> in the last two positions is not always stood on. In \<^verbatim>\<open>ab$t$\<close> the
  scanner stands on positions 0, 1 and 2 only: the closing \<^verbatim>\<open>$\<close> is read as the
  digit of the token \<^verbatim>\<open>$t$\<close>, whose dependency offset 244 selects a slot outside
  the three dependencies.
\<close>

lemma scan_positions_dollar_as_digit:
  "scan_positions (cmd (trace dollar_as_digit_node ! 10)) = [0, 1, 2]
   \<and> cmd (trace dollar_as_digit_node ! 10) ! 4 = CHR ''$''
   \<and> cuda_render_cmd (trace dollar_as_digit_node) Map.empty 10 = Inl UndefinedBehaviour"
  by code_simp

subsection \<open>The register map\<close>







subsection \<open>The order of the dependencies in the schedule\<close>

text \<open>
  C3. Node 16 of \<open>three_operands\<close> has the dependencies 10, 12, 15, of subtree size
  1, 2 and 3. The three tests of \<^verbatim>\<open>sweep_recursive\<close> leave them in the order 15, 10,
  12, which is not descending: node 10, the lightest operand, is scheduled before
  the nodes 11 and 12 of the heavier one.
\<close>

theorem sweep_recursive_light_before_heavier:
  "dep (trace three_operands ! 16) = (10, 12, 15)
   \<and> prio (trace three_operands) (10, 12, 15) 0 = 1
   \<and> prio (trace three_operands) (10, 12, 15) 1 = 2
   \<and> prio (trace three_operands) (10, 12, 15) 2 = 3
   \<and> reorder_deps (trace three_operands) (10, 12, 15) = (15, 10, 12)
   \<and> sweep_recursive 4 (trace three_operands) {} [] 16
       = Some (Inr ({10, 11, 12, 13, 14, 15, 16}, [13, 14, 15, 10, 11, 12, 16]))"
  by code_simp

subsection \<open>What a sweep schedules\<close>

text \<open>
  A sweep only appends to the schedule of its bucket. What it appends is
  duplicate-free, was not visited before, lies inside the trace, and is the
  seed itself or a non-reserved index. Over the whole active set this gives
  one schedule per bucket, each duplicate-free and free of reserved indices,
  and every seed in the schedule of the bucket of its size.
\<close>

lemma sweep_extends:
  "sweep_recursive n tr vis sw idx = Some (Inr (vis', sw')) \<Longrightarrow>
     \<exists>new. sw' = sw @ new \<and> vis' = vis \<union> set new \<and> distinct new \<and> set new \<inter> vis = {}
          \<and> idx \<in> vis' \<and> (\<forall>k\<in>set new. (k = idx \<or> ENOKI_CUDA_REG_RESERVED \<le> k) \<and> k < length tr)"
  "sweep_deps n tr vis sw ks = Some (Inr (vis', sw')) \<Longrightarrow>
     \<exists>new. sw' = sw @ new \<and> vis' = vis \<union> set new \<and> distinct new \<and> set new \<inter> vis = {}
          \<and> (\<forall>k\<in>set new. ENOKI_CUDA_REG_RESERVED \<le> k \<and> k < length tr)"
proof (induction n tr vis sw idx and n tr vis sw ks arbitrary: vis' sw' and vis' sw'
    rule: sweep_recursive_sweep_deps.induct)
  case (1 tr visited sweep idx)
  then show ?case by simp
next
  case (2 n tr visited sweep idx)
  show ?case
  proof (cases "idx \<in> visited")
    case True
    with "2.prems" have "vis' = visited" "sw' = sweep" by simp_all
    with True show ?thesis by simp
  next
    case False
    note nv = this
    from "2.prems" nv have il: "idx < length tr"
      by (cases "idx < length tr") simp_all
    from "2.prems" nv il have dr: "deps_in_range tr (dep (tr ! idx))"
      by (cases "deps_in_range tr (dep (tr ! idx))") simp_all
    let ?deps = "reorder_deps tr (dep (tr ! idx))"
    let ?ks = "[dep_get ?deps 0, dep_get ?deps 1, dep_get ?deps 2]"
    have unf: "sweep_recursive (Suc n) tr visited sweep idx =
        (case sweep_deps n tr (insert idx visited) sweep ?ks of
           None \<Rightarrow> None
         | Some (Inl e) \<Rightarrow> Some (Inl e)
         | Some (Inr (visited', sweep')) \<Rightarrow> Some (Inr (visited', sweep' @ [idx])))"
      using nv il dr by (simp add: Let_def del: sweep_deps.simps)
    from "2.prems" obtain vis2 sw2 where
      d: "sweep_deps n tr (insert idx visited) sweep ?ks = Some (Inr (vis2, sw2))"
      and r: "vis' = vis2" "sw' = sw2 @ [idx]"
      unfolding unf
      by (cases "sweep_deps n tr (insert idx visited) sweep ?ks")
        (auto simp del: sweep_deps.simps split: sum.splits)
    from "2.IH"[OF nv _ _ refl d] il dr obtain new where
      n: "sw2 = sweep @ new" "vis2 = insert idx visited \<union> set new" "distinct new"
      "set new \<inter> insert idx visited = {}"
      "\<forall>k\<in>set new. ENOKI_CUDA_REG_RESERVED \<le> k \<and> k < length tr"
      by auto
    have "sw' = sweep @ (new @ [idx])" using r n by simp
    moreover have "vis' = visited \<union> set (new @ [idx])" using r n by auto
    moreover have "distinct (new @ [idx])" using n by auto
    moreover have "set (new @ [idx]) \<inter> visited = {}" using n nv by auto
    moreover have "idx \<in> vis'" using r n by simp
    moreover have "\<forall>k\<in>set (new @ [idx]). (k = idx \<or> ENOKI_CUDA_REG_RESERVED \<le> k) \<and> k < length tr"
      using n il by auto
    ultimately show ?thesis by blast
  qed
next
  case (3 n tr visited sweep)
  then show ?case by simp
next
  case (4 n tr visited sweep k ks)
  show ?case
  proof (cases "ENOKI_CUDA_REG_RESERVED \<le> k")
    case False
    with "4.prems" have "sweep_deps n tr visited sweep ks = Some (Inr (vis', sw'))" by simp
    from "4.IH"(3)[OF False this] show ?thesis .
  next
    case True
    with "4.prems" obtain vis1 sw1 where
      a: "sweep_recursive n tr visited sweep k = Some (Inr (vis1, sw1))"
      and b: "sweep_deps n tr vis1 sw1 ks = Some (Inr (vis', sw'))"
      by (cases "sweep_recursive n tr visited sweep k") (auto split: sum.splits)
    from "4.IH"(1)[OF True a] obtain new1 where
      n1: "sw1 = sweep @ new1" "vis1 = visited \<union> set new1" "distinct new1"
      "set new1 \<inter> visited = {}"
      "\<forall>j\<in>set new1. (j = k \<or> ENOKI_CUDA_REG_RESERVED \<le> j) \<and> j < length tr"
      by blast
    from "4.IH"(2)[OF True a refl refl b] obtain new2 where
      n2: "sw' = sw1 @ new2" "vis' = vis1 \<union> set new2" "distinct new2"
      "set new2 \<inter> vis1 = {}"
      "\<forall>j\<in>set new2. ENOKI_CUDA_REG_RESERVED \<le> j \<and> j < length tr"
      by blast
    have "sw' = sweep @ (new1 @ new2)" using n1 n2 by simp
    moreover have "vis' = visited \<union> set (new1 @ new2)" using n1 n2 by auto
    moreover have "distinct (new1 @ new2)" using n1 n2 by auto
    moreover have "set (new1 @ new2) \<inter> visited = {}" using n1 n2 by auto
    moreover have "\<forall>j\<in>set (new1 @ new2). ENOKI_CUDA_REG_RESERVED \<le> j \<and> j < length tr"
      using n1 n2 True by auto
    ultimately show ?thesis by blast
  qed
qed


lemma sweep_active_inv:
  assumes "sweep_active fuel tr act sweeps = Some (Inr sweeps')"
    and "\<forall>i\<in>set act. ENOKI_CUDA_REG_RESERVED \<le> i"
    and "distinct (map fst sweeps)" and "\<forall>b\<in>set sweeps. schedule_ok tr (snd b)"
  shows "distinct (map fst sweeps') \<and> (\<forall>b\<in>set sweeps'. schedule_ok tr (snd b))
     \<and> (\<forall>idx\<in>set act. \<exists>e. map_of sweeps' (size_v (tr ! idx)) = Some e \<and> idx \<in> set (snd e))
     \<and> (\<forall>k e. map_of sweeps k = Some e \<longrightarrow>
            (\<exists>e'. map_of sweeps' k = Some e' \<and> set (snd e) \<subseteq> set (snd e')))"
  using assms
proof (induction act arbitrary: sweeps)
  case Nil
  then show ?case by simp
next
  case (Cons idx rest)
  let ?key = "size_v (tr ! idx)"
  let ?entry = "case map_of sweeps ?key of None \<Rightarrow> ({}, []) | Some b \<Rightarrow> b"
  from Cons.prems(1) have il: "idx < length tr"
    by (cases "idx < length tr") simp_all
  from Cons.prems(1) il obtain entry' where
    r: "sweep_recursive fuel tr (fst ?entry) (snd ?entry) idx = Some (Inr entry')"
    and a: "sweep_active fuel tr rest (AList.update ?key entry' sweeps) = Some (Inr sweeps')"
    by (cases "sweep_recursive fuel tr (fst ?entry) (snd ?entry) idx")
      (auto simp: Let_def split: sum.splits)
  let ?sweeps1 = "AList.update ?key entry' sweeps"
  have ok0: "schedule_ok tr ?entry"
  proof (cases "map_of sweeps ?key")
    case None
    then show ?thesis by (simp add: schedule_ok_def)
  next
    case (Some b)
    then have "(?key, b) \<in> set sweeps" by (rule map_of_SomeD)
    with Cons.prems(4) Some show ?thesis by auto
  qed
  obtain vis' sw' where e': "entry' = (vis', sw')" by (cases entry')
  from sweep_extends(1)[OF r[unfolded e']] obtain new where
    n: "sw' = snd ?entry @ new" "vis' = fst ?entry \<union> set new" "distinct new"
    "set new \<inter> fst ?entry = {}" "idx \<in> vis'"
    "\<forall>k\<in>set new. (k = idx \<or> ENOKI_CUDA_REG_RESERVED \<le> k) \<and> k < length tr"
    by blast
  have idxR: "ENOKI_CUDA_REG_RESERVED \<le> idx" using Cons.prems(2) by simp
  have ok1: "schedule_ok tr entry'"
    using ok0 n idxR unfolding e' schedule_ok_def by (auto simp: list_all_iff)
  have in1: "idx \<in> set (snd entry')" using ok1 n(5) e' by (simp add: schedule_ok_def)
  have ext: "set (snd ?entry) \<subseteq> set (snd entry')" using n(1) e' by auto
  have d1: "distinct (map fst ?sweeps1)" using Cons.prems(3) by (rule distinct_update)
  have m1: "map_of ?sweeps1 = (map_of sweeps)(?key \<mapsto> entry')" by (rule update_conv')
  have all1: "\<forall>b\<in>set ?sweeps1. schedule_ok tr (snd b)"
  proof
    fix b assume b: "b \<in> set ?sweeps1"
    obtain k e where ke: "b = (k, e)" by (cases b)
    with b d1 have "map_of ?sweeps1 k = Some e" by simp
    then have "e = entry' \<or> map_of sweeps k = Some e"
      unfolding m1 by (auto split: if_splits)
    then show "schedule_ok tr (snd b)"
    proof
      assume "e = entry'" with ok1 ke show ?thesis by simp
    next
      assume "map_of sweeps k = Some e"
      then have "(k, e) \<in> set sweeps" by (rule map_of_SomeD)
      with Cons.prems(4) ke show ?thesis by auto
    qed
  qed
  from Cons.prems(2) have restR: "\<forall>i\<in>set rest. ENOKI_CUDA_REG_RESERVED \<le> i" by simp
  note IH = Cons.IH[OF a restR d1 all1]
  from IH have mono1: "\<forall>k e. map_of ?sweeps1 k = Some e \<longrightarrow>
            (\<exists>e'. map_of sweeps' k = Some e' \<and> set (snd e) \<subseteq> set (snd e'))"
    by blast
  have here: "\<exists>e. map_of sweeps' ?key = Some e \<and> idx \<in> set (snd e)"
  proof -
    have "map_of ?sweeps1 ?key = Some entry'" unfolding m1 by simp
    with mono1 obtain e2 where "map_of sweeps' ?key = Some e2" "set (snd entry') \<subseteq> set (snd e2)"
      by blast
    with in1 show ?thesis by blast
  qed
  have mono: "\<forall>k e. map_of sweeps k = Some e \<longrightarrow>
            (\<exists>e'. map_of sweeps' k = Some e' \<and> set (snd e) \<subseteq> set (snd e'))"
  proof (intro allI impI)
    fix k e assume ke: "map_of sweeps k = Some e"
    show "\<exists>e'. map_of sweeps' k = Some e' \<and> set (snd e) \<subseteq> set (snd e')"
    proof (cases "k = ?key")
      case True
      with ke have "?entry = e" by simp
      with ext have s: "set (snd e) \<subseteq> set (snd entry')" by simp
      have "map_of ?sweeps1 k = Some entry'" unfolding m1 using True by simp
      with mono1 obtain e2 where "map_of sweeps' k = Some e2" "set (snd entry') \<subseteq> set (snd e2)"
        by blast
      with s show ?thesis by blast
    next
      case False
      with ke have "map_of ?sweeps1 k = Some e" unfolding m1 by simp
      with mono1 show ?thesis by blast
    qed
  qed
  have seeds: "\<forall>i\<in>set (idx # rest). \<exists>e. map_of sweeps' (size_v (tr ! i)) = Some e \<and> i \<in> set (snd e)"
  proof
    fix i assume "i \<in> set (idx # rest)"
    then have "i = idx \<or> i \<in> set rest" by simp
    then show "\<exists>e. map_of sweeps' (size_v (tr ! i)) = Some e \<and> i \<in> set (snd e)"
      using here IH by blast
  qed
  from IH have "distinct (map fst sweeps')" "\<forall>b\<in>set sweeps'. schedule_ok tr (snd b)" by blast+
  with seeds mono show ?case by blast
qed

lemma sweep_active_schedules:
  assumes "sweep_active fuel tr act [] = Some (Inr sweeps)"
    and "\<forall>i\<in>set act. ENOKI_CUDA_REG_RESERVED \<le> i"
  shows "distinct (map fst sweeps)
     \<and> (\<forall>b\<in>set sweeps. distinct (snd (snd b)) \<and> fst (snd b) = set (snd (snd b))
           \<and> (\<forall>i\<in>set (snd (snd b)). ENOKI_CUDA_REG_RESERVED \<le> i \<and> i < length tr))
     \<and> (\<forall>idx\<in>set act. \<exists>vis sw. (size_v (tr ! idx), vis, sw) \<in> set sweeps \<and> idx \<in> set sw)"
proof -
  have "distinct (map fst ([] :: (64 word \<times> nat set \<times> nat list) list))" "\<forall>b\<in>set ([] :: (64 word \<times> nat set \<times> nat list) list). schedule_ok tr (snd b)" by simp_all
  from sweep_active_inv[OF assms this] have
    d: "distinct (map fst sweeps)" and o: "\<forall>b\<in>set sweeps. schedule_ok tr (snd b)"
    and s: "\<forall>idx\<in>set act. \<exists>e. map_of sweeps (size_v (tr ! idx)) = Some e \<and> idx \<in> set (snd e)"
    by blast+
  have "\<forall>idx\<in>set act. \<exists>vis sw. (size_v (tr ! idx), vis, sw) \<in> set sweeps \<and> idx \<in> set sw"
  proof
    fix idx assume "idx \<in> set act"
    with s obtain e where "map_of sweeps (size_v (tr ! idx)) = Some e" "idx \<in> set (snd e)" by blast
    then have "(size_v (tr ! idx), fst e, snd e) \<in> set sweeps" "idx \<in> set (snd e)"
      by (auto dest: map_of_SomeD)
    then show "\<exists>vis sw. (size_v (tr ! idx), vis, sw) \<in> set sweeps \<and> idx \<in> set sw" by blast
  qed
  with d o show ?thesis by (auto simp: schedule_ok_def list_all_iff)
qed

subsection \<open>The release cascade\<close>

text \<open>
  Whatever \<^verbatim>\<open>cuda_dec_ref_int\<close>, \<^verbatim>\<open>cuda_var_free\<close> and the loop over the dependency
  slots do to the trace, every node only \<open>evolves\<close>: no static field, no external
  count, no active-set entry is written, slots are only zeroed and pointers only
  dropped. \<^verbatim>\<open>cuda_var_free\<close> is entered for collected nodes only.
\<close>

lemma dep_le_refl [simp]: "dep_le d d"
  by (cases d) simp

lemma dep_le_trans: "dep_le d1 d2 \<Longrightarrow> dep_le d2 d3 \<Longrightarrow> dep_le d1 d3"
  by (cases d1; cases d2; cases d3) auto

lemma dep_le_set0 [simp]: "dep_le d (dep_set d i 0)"
  by (cases d) simp

lemma grows_refl [simp]: "grows v v"
  by (auto simp: grows_def same_static_def)

lemma evolves_refl [simp]: "evolves v v"
  by (simp add: evolves_def)

lemma grows_trans: "grows v1 v2 \<Longrightarrow> grows v2 v3 \<Longrightarrow> grows v1 v3"
  unfolding grows_def same_static_def
  by (auto intro: dep_le_trans)

lemma evolves_trans: "evolves v1 v2 \<Longrightarrow> evolves v2 v3 \<Longrightarrow> evolves v1 v3"
  unfolding evolves_def by (auto intro: grows_trans)

lemma evolves_grows: "evolves v v' \<Longrightarrow> grows v v'"
  by (simp add: evolves_def)

lemma step_refl [simp]: "step s s"
  by (simp add: step_def list_all2_refl)

lemma step_trans: "step s1 s2 \<Longrightarrow> step s2 s3 \<Longrightarrow> step s1 s3"
  unfolding step_def
  by (auto intro: list_all2_trans[where ?P1.0 = evolves and ?P2.0 = evolves, rotated] evolves_trans)

lemma gstep_refl [simp]: "gstep s s"
  by (simp add: gstep_def list_all2_refl)

lemma gstep_trans: "gstep s1 s2 \<Longrightarrow> gstep s2 s3 \<Longrightarrow> gstep s1 s3"
  unfolding gstep_def
  by (auto intro: list_all2_trans[where ?P1.0 = grows and ?P2.0 = grows, rotated] grows_trans)

lemma step_gstep: "step s s' \<Longrightarrow> gstep s s'"
  unfolding step_def gstep_def
  by (auto intro: list_all2_mono evolves_grows)

lemma step_upd_var:
  "evolves (trace s ! i) (f (trace s ! i)) \<Longrightarrow> step s (upd_var s i f)"
  unfolding step_def upd_var_def
  by (cases "i < length (trace s)") (auto simp: list_all2_conv_all_nth nth_list_update)

lemma step_length: "step s s' \<Longrightarrow> length (trace s') = length (trace s)"
  by (auto simp: step_def dest: list_all2_lengthD)

lemma step_nth: "step s s' \<Longrightarrow> i < length (trace s) \<Longrightarrow> evolves (trace s ! i) (trace s' ! i)"
  by (auto simp: step_def dest: list_all2_nthD)

lemma cascade_step:
  "cuda_dec_ref_int n s i = Some (Inr s') \<Longrightarrow> step s s'"
  "cuda_var_free n s i = Some (Inr s') \<Longrightarrow> ref_count_ext (trace s ! i) = 0 \<Longrightarrow> step s s'"
  "release_deps n s i slots = Some (Inr s') \<Longrightarrow> step s s'"
proof (induction n s i and n s i and n s i slots arbitrary: s' and s' and s'
    rule: cuda_dec_ref_int_cuda_var_free_release_deps.induct)
  case (1 s index)
  then show ?case by simp
next
  case (2 n s index)
  let ?s1 = "upd_var s index (\<lambda>v. v\<lparr>ref_count_int := ref_count_int v - 1\<rparr>)"
  have a: "step s ?s1"
    by (rule step_upd_var) (auto simp: evolves_def grows_def same_static_def)
  show ?case
  proof (cases "index < ENOKI_CUDA_REG_RESERVED")
    case True
    with "2.prems" show ?thesis by simp
  next
    case False
    note nr = this
    show ?thesis
    proof (cases "trace s = [] \<or> \<not> index < length (trace s)")
      case True
      with "2.prems" nr show ?thesis by (auto split: if_splits)
    next
      case False
      then have ok: "trace s \<noteq> []" "index < length (trace s)" by auto
      show ?thesis
      proof (cases "is_collected (trace ?s1 ! index)")
        case True
        with "2.prems" nr ok have f: "cuda_var_free n ?s1 index = Some (Inr s')"
          by (simp add: Let_def)
        from True have "ref_count_ext (trace ?s1 ! index) = 0"
          by (simp add: is_collected_def)
        from "2.IH"[OF nr ok(1) _ refl True f this] ok have "step ?s1 s'" by simp
        with a show ?thesis by (rule step_trans)
      next
        case False
        with "2.prems" nr ok have "s' = ?s1" by (simp add: Let_def)
        with a show ?thesis by simp
      qed
    qed
  qed
next
  case (3 s idx)
  then show ?case by simp
next
  case (4 n s idx)
  show ?case
  proof (cases "idx < length (trace s)")
    case False
    with "4.prems" show ?thesis by simp
  next
    case True
    with "4.prems" obtain s1 where r: "release_deps n s idx [0, 1, 2] = Some (Inr s1)"
      and s': "s' = upd_var s1 idx (\<lambda>v. v\<lparr>data := 0\<rparr>)"
      by (auto split: option.splits sum.splits)
    from "4.IH"[OF _ r] True have st: "step s s1" by simp
    from step_nth[OF st True] "4.prems"(2) have "ref_count_ext (trace s1 ! idx) = 0"
      by (auto simp: evolves_def grows_def)
    then have "step s1 s'" unfolding s'
      by (intro step_upd_var) (auto simp: evolves_def grows_def same_static_def)
    with st show ?thesis by (rule step_trans)
  qed
next
  case (5 n s idx)
  then show ?case by simp
next
  case (6 n s idx i slots)
  from "6.prems" obtain s1 where d: "cuda_dec_ref_int n s (dep_get (dep (trace s ! idx)) i) = Some (Inr s1)"
    and r: "release_deps n (upd_var s1 idx (\<lambda>v. v\<lparr>dep := dep_set (dep v) i 0\<rparr>)) idx slots = Some (Inr s')"
    by (auto split: option.splits sum.splits)
  have a: "step s s1" by (rule "6.IH"(1)[OF d])
  have b: "step s1 (upd_var s1 idx (\<lambda>v. v\<lparr>dep := dep_set (dep v) i 0\<rparr>))"
    by (rule step_upd_var) (auto simp: evolves_def grows_def same_static_def)
  have c: "step (upd_var s1 idx (\<lambda>v. v\<lparr>dep := dep_set (dep v) i 0\<rparr>)) s'"
    by (rule "6.IH"(2)[OF d refl r])
  from a b c show ?case by (blast intro: step_trans)
qed

subsection \<open>The external decrement\<close>

text \<open>
  \<^verbatim>\<open>cuda_dec_ref_ext\<close> on a non-reserved index of an initialised trace: the count
  was not zero and goes down by one; when it reaches zero the node leaves the
  active set, and the release cascade follows if the node is collected.
\<close>

lemma step_ext: "step s s' \<Longrightarrow> i < length (trace s) \<Longrightarrow> ref_count_ext (trace s' ! i) = ref_count_ext (trace s ! i)"
  using step_nth[of s s' i] by (simp add: evolves_def)

lemma gstep_length: "gstep s s' \<Longrightarrow> length (trace s') = length (trace s)"
  by (auto simp: gstep_def dest: list_all2_lengthD)

lemma gstep_nth: "gstep s s' \<Longrightarrow> i < length (trace s) \<Longrightarrow> grows (trace s ! i) (trace s' ! i)"
  by (auto simp: gstep_def dest: list_all2_nthD)

lemma gstep_upd_var:
  "grows (trace s ! i) (f (trace s ! i)) \<Longrightarrow> gstep s (upd_var s i f)"
  unfolding gstep_def upd_var_def
  by (cases "i < length (trace s)") (auto simp: list_all2_conv_all_nth nth_list_update)

lemma upd_var_other: "j \<noteq> i \<Longrightarrow> trace (upd_var s i f) ! j = trace s ! j"
  by (simp add: upd_var_def)

lemma upd_var_same: "i < length (trace s) \<Longrightarrow> trace (upd_var s i f) ! i = f (trace s ! i)"
  by (simp add: upd_var_def)

lemma upd_var_length [simp]: "length (trace (upd_var s i f)) = length (trace s)"
  by (simp add: upd_var_def)

lemma upd_var_fields [simp]: "active (upd_var s i f) = active s" "dirty_list (upd_var s i f) = dirty_list s"
  "heap_top (upd_var s i f) = heap_top s"
  by (simp_all add: upd_var_def)

lemma cuda_dec_ref_ext_effect:
  assumes "cuda_dec_ref_ext fuel s i = Some (Inr s')"
    and "ENOKI_CUDA_REG_RESERVED \<le> i" and "trace s \<noteq> []"
  shows "i < length (trace s) \<and> ref_count_ext (trace s ! i) \<noteq> 0
       \<and> ref_count_ext (trace s' ! i) = ref_count_ext (trace s ! i) - 1
       \<and> step (upd_var s i (\<lambda>v. v\<lparr>ref_count_ext := ref_count_ext v - 1\<rparr>)) s'
       \<and> (ref_count_ext (trace s ! i) = 1 \<longrightarrow> i \<notin> set (active s'))
       \<and> (ref_count_ext (trace s ! i) \<noteq> 1 \<longrightarrow>
            s' = upd_var s i (\<lambda>v. v\<lparr>ref_count_ext := ref_count_ext v - 1\<rparr>))"
proof -
  let ?s1 = "upd_var s i (\<lambda>v. v\<lparr>ref_count_ext := ref_count_ext v - 1\<rparr>)"
  let ?s2 = "if ref_count_ext (trace ?s1 ! i) = 0 then ?s1\<lparr>active := removeAll i (active ?s1)\<rparr> else ?s1"
  from assms have il: "i < length (trace s)" and nz: "ref_count_ext (trace s ! i) \<noteq> 0"
    by (auto simp: cuda_dec_ref_ext_def split: if_splits)
  have e1: "ref_count_ext (trace ?s1 ! i) = ref_count_ext (trace s ! i) - 1"
    using il by (simp add: upd_var_same)
  have z: "(ref_count_ext (trace ?s1 ! i) = 0) = (ref_count_ext (trace s ! i) = 1)"
    unfolding e1 by (metis diff_self eq_iff_diff_eq_0)
  have t2: "trace ?s2 = trace ?s1" by simp
  have b: "step ?s1 ?s2"
    by (auto simp: step_def list_all2_refl)
  have run: "(if is_collected (trace ?s2 ! i) then cuda_var_free fuel ?s2 i else Some (Inr ?s2)) = Some (Inr s')"
    using assms il nz by (simp add: cuda_dec_ref_ext_def Let_def)
  have c: "step ?s2 s'"
  proof (cases "is_collected (trace ?s2 ! i)")
    case True
    with run have f: "cuda_var_free fuel ?s2 i = Some (Inr s')" by simp
    from True have "ref_count_ext (trace ?s2 ! i) = 0" by (simp add: is_collected_def)
    from cascade_step(2)[OF f this] show ?thesis .
  next
    case False
    with run have "s' = ?s2" by simp
    then show ?thesis by simp
  qed
  have bc: "step ?s1 s'" using b c by (rule step_trans)
  have ext: "ref_count_ext (trace s' ! i) = ref_count_ext (trace s ! i) - 1"
    using step_ext[OF bc, of i] il e1 by simp
  have act: "ref_count_ext (trace s ! i) = 1 \<longrightarrow> i \<notin> set (active s')"
  proof
    assume "ref_count_ext (trace s ! i) = 1"
    with z have "i \<notin> set (active ?s2)" by simp
    with c show "i \<notin> set (active s')" by (auto simp: step_def)
  qed
  have same: "ref_count_ext (trace s ! i) \<noteq> 1 \<longrightarrow> s' = ?s1"
  proof
    assume n1: "ref_count_ext (trace s ! i) \<noteq> 1"
    with z have nz1: "ref_count_ext (trace ?s1 ! i) \<noteq> 0" by simp
    then have "\<not> is_collected (trace ?s2 ! i)" by (simp add: is_collected_def)
    with run nz1 show "s' = ?s1" by simp
  qed
  from il nz ext bc act same show ?thesis by blast
qed

lemma cuda_dec_ref_ext_gstep:
  assumes "cuda_dec_ref_ext fuel s i = Some (Inr s')"
  shows "gstep s s' \<and> heap_top s' = heap_top s
       \<and> (\<forall>j<length (trace s). j \<noteq> i \<longrightarrow> evolves (trace s ! j) (trace s' ! j))
       \<and> (\<forall>j<length (trace s). data (trace s' ! j) = data (trace s ! j) \<or> data (trace s' ! j) = 0)"
proof (cases "i < ENOKI_CUDA_REG_RESERVED \<or> trace s = []")
  case True
  with assms have "s' = s" by (auto simp: cuda_dec_ref_ext_def)
  then show ?thesis by simp
next
  case False
  let ?s1 = "upd_var s i (\<lambda>v. v\<lparr>ref_count_ext := ref_count_ext v - 1\<rparr>)"
  from False cuda_dec_ref_ext_effect[OF assms]
  have il: "i < length (trace s)" and nz: "ref_count_ext (trace s ! i) \<noteq> 0"
    and st: "step ?s1 s'" by auto
  have g1: "gstep s ?s1"
    using nz by (intro gstep_upd_var) (auto simp: grows_def same_static_def)
  have g: "gstep s s'" using g1 step_gstep[OF st] by (rule gstep_trans)
  have h: "heap_top s' = heap_top s" using st by (simp add: step_def)
  have o: "\<forall>j<length (trace s). j \<noteq> i \<longrightarrow> evolves (trace s ! j) (trace s' ! j)"
  proof (intro allI impI)
    fix j assume "j < length (trace s)" "j \<noteq> i"
    with step_nth[OF st, of j] show "evolves (trace s ! j) (trace s' ! j)"
      by (simp add: upd_var_other)
  qed
  have d: "\<forall>j<length (trace s). data (trace s' ! j) = data (trace s ! j) \<or> data (trace s' ! j) = 0"
  proof (intro allI impI)
    fix j assume j: "j < length (trace s)"
    have "data (trace ?s1 ! j) = data (trace s ! j)"
      using j by (cases "j = i") (simp_all add: upd_var_same upd_var_other)
    with step_nth[OF st, of j] j show "data (trace s' ! j) = data (trace s ! j) \<or> data (trace s' ! j) = 0"
      by (auto simp: evolves_def)
  qed
  from g h o d show ?thesis by blast
qed

subsection \<open>What assembling a kernel does to the trace\<close>

text \<open>
  A node that is assembled either keeps its state (an input), or may lose one
  external reference (a side effect) and may gain a device pointer; afterwards it
  is \<open>stored\<close> for the bucket's element count. Every other node only \<open>evolves\<close>.
\<close>

lemma grows_stored: 
  assumes "stored sz v" and "grows v v'"
  shows "stored sz v'"
proof -
  from assms(2) have c: "cmd v' = cmd v" and s: "size_v v' = size_v v"
    and e: "ref_count_ext v' = 0 \<or> ref_count_ext v \<noteq> 0"
    and d: "data v' \<noteq> 0 \<or> data v = 0 \<or> ref_count_ext v' = 0"
    by (simp_all add: grows_def same_static_def)
  from assms(1) have "cmd v = [] \<or> data v \<noteq> 0 \<or> ref_count_ext v = 0 \<or> size_v v \<noteq> sz"
    by (simp add: stored_def)
  with c s e d show ?thesis unfolding stored_def by metis
qed

lemma dep_le_zero: "dep_le (0, 0, 0) d \<Longrightarrow> d = (0, 0, 0)"
  by (cases d) simp

lemma evolves_collapsed: 
  assumes "collapsed v" and "evolves v v'"
  shows "collapsed v'"
proof -
  from assms(2) have c: "cmd v' = cmd v" and d: "data v' = data v \<or> data v' = 0"
    and l: "dep_le (dep v) (dep v')"
    by (simp_all add: evolves_def grows_def same_static_def)
  from assms(1) have "data v = 0 \<or> cmd v = [] \<or> dep v = (0, 0, 0)"
    by (simp add: collapsed_def)
  then show ?thesis
  proof (elim disjE)
    assume "data v = 0"
    with d have "data v' = 0" by auto
    then show ?thesis by (simp add: collapsed_def)
  next
    assume "cmd v = []"
    with c show ?thesis by (simp add: collapsed_def)
  next
    assume "dep v = (0, 0, 0)"
    with l have "dep v' = (0, 0, 0)" by (simp add: dep_le_zero)
    then show ?thesis by (simp add: collapsed_def)
  qed
qed

lemma assemble_node_cases:
  assumes "assemble_node fuel rm sz index (out, ptrs, s) = Some (Inr (out', ptrs', s'))"
  shows "index < length (trace s) \<and>
    ((data (trace s ! index) \<noteq> 0 \<and> s' = s) \<or>
     (data (trace s ! index) = 0 \<and> cmd (trace s ! index) \<noteq> [] \<and>
      (\<exists>s1. (if side_effect (trace s ! index) then cuda_dec_ref_ext fuel s index else Some (Inr s)) = Some (Inr s1)
        \<and> ((ref_count_ext (trace s1 ! index) = 0 \<or> size_v (trace s1 ! index) \<noteq> sz) \<and> s' = s1
            \<or> ref_count_ext (trace s1 ! index) \<noteq> 0 \<and> size_v (trace s1 ! index) = sz
              \<and> s' = upd_var (s1\<lparr>heap_top := Suc (heap_top s1)\<rparr>) index (\<lambda>v. v\<lparr>data := Suc (heap_top s1)\<rparr>)))))"
proof -
  let ?var = "trace s ! index"
  let ?dec = "if side_effect ?var then cuda_dec_ref_ext fuel s index else Some (Inr s)"
  note d = assemble_node_def Let_def fst_conv snd_conv
  have il: "index < length (trace s)"
    using assms by (cases "index < length (trace s)") (simp_all add: d)
  have nc: "\<not> is_collected ?var"
    using assms il by (cases "is_collected ?var") (simp_all add: d)
  show ?thesis
  proof (cases "data ?var = 0")
    case False
    have "s' = s"
      using assms il nc False
      by (cases "size_v ?var = 1"; cases "size_v ?var = sz") (simp_all add: d)
    with False il show ?thesis by simp
  next
    case True
    have c: "cmd ?var \<noteq> []"
      using assms il nc True by (cases "cmd ?var = []") (simp_all add: d)
    have unf: "(case cuda_render_cmd (trace s) rm index of
             Inl e \<Rightarrow> Some (Inl e)
           | Inr line \<Rightarrow>
               (case ?dec of
                  None \<Rightarrow> None
                | Some (Inl e) \<Rightarrow> Some (Inl e)
                | Some (Inr s1) \<Rightarrow>
                    let var1 = trace s1 ! index in
                    if ref_count_ext var1 = 0 then Some (Inr (out @ [line], ptrs, s1))
                    else if size_v var1 \<noteq> sz then Some (Inr (out @ [line], ptrs, s1))
                    else
                      let p = fst (cudaMalloc s1); s2 = snd (cudaMalloc s1) in
                      Some (Inr (out @ [line], ptrs @ [p],
                                 upd_var s2 index (\<lambda>v. v\<lparr>data := p\<rparr>)))))
           = Some (Inr (out', ptrs', s'))"
      using assms il nc True c
      by (cases "size_v ?var = 1"; cases "size_v ?var = sz")
        (simp_all add: assemble_node_def Let_def[of "fst _"] Let_def[of "snd _"] Let_def[of "_ ! _"])
    from unf obtain line where
      ln: "cuda_render_cmd (trace s) rm index = Inr line"
      by (cases "cuda_render_cmd (trace s) rm index") simp_all
    from unf ln obtain s1 where s1: "?dec = Some (Inr s1)"
      by (cases ?dec) (auto split: sum.splits)
    from unf ln s1
    have "(ref_count_ext (trace s1 ! index) = 0 \<or> size_v (trace s1 ! index) \<noteq> sz) \<and> s' = s1
            \<or> ref_count_ext (trace s1 ! index) \<noteq> 0 \<and> size_v (trace s1 ! index) = sz
              \<and> s' = upd_var (s1\<lparr>heap_top := Suc (heap_top s1)\<rparr>) index (\<lambda>v. v\<lparr>data := Suc (heap_top s1)\<rparr>)"
      by (cases "ref_count_ext (trace s1 ! index) = 0"; cases "size_v (trace s1 ! index) = sz")
        (simp_all add: cudaMalloc_def Let_def)
    with il True c s1 show ?thesis by blast
  qed
qed

lemma assemble_node_gstep:
  assumes "assemble_node fuel rm sz index (out, ptrs, s) = Some (Inr (out', ptrs', s'))"
  shows "gstep s s' \<and> index < length (trace s) \<and> stored sz (trace s' ! index)
         \<and> (\<forall>j<length (trace s). j \<noteq> index \<longrightarrow> evolves (trace s ! j) (trace s' ! j))"
proof -
  from assemble_node_cases[OF assms] have il: "index < length (trace s)" by simp
  from assemble_node_cases[OF assms] consider
    (input) "data (trace s ! index) \<noteq> 0" "s' = s"
    | (computed) s1 where "data (trace s ! index) = 0" "cmd (trace s ! index) \<noteq> []"
        "(if side_effect (trace s ! index) then cuda_dec_ref_ext fuel s index else Some (Inr s)) = Some (Inr s1)"
        "(ref_count_ext (trace s1 ! index) = 0 \<or> size_v (trace s1 ! index) \<noteq> sz) \<and> s' = s1
            \<or> ref_count_ext (trace s1 ! index) \<noteq> 0 \<and> size_v (trace s1 ! index) = sz
              \<and> s' = upd_var (s1\<lparr>heap_top := Suc (heap_top s1)\<rparr>) index (\<lambda>v. v\<lparr>data := Suc (heap_top s1)\<rparr>)"
    by blast
  then show ?thesis
  proof cases
    case input
    then have "stored sz (trace s' ! index)" by (simp add: stored_def)
    with input il show ?thesis by simp
  next
    case (computed s1)
    have g1: "gstep s s1 \<and> (\<forall>j<length (trace s). j \<noteq> index \<longrightarrow> evolves (trace s ! j) (trace s1 ! j))"
    proof (cases "side_effect (trace s ! index)")
      case True
      with computed(3) have "cuda_dec_ref_ext fuel s index = Some (Inr s1)" by simp
      from cuda_dec_ref_ext_gstep[OF this] show ?thesis by blast
    next
      case False
      with computed(3) have "s1 = s" by simp
      then show ?thesis by simp
    qed
    have len1: "length (trace s1) = length (trace s)" using g1 by (simp add: gstep_length)
    from computed(4) show ?thesis
    proof
      assume a: "(ref_count_ext (trace s1 ! index) = 0 \<or> size_v (trace s1 ! index) \<noteq> sz) \<and> s' = s1"
      then have "stored sz (trace s' ! index)" unfolding stored_def by blast
      with a g1 il show ?thesis by blast
    next
      assume a: "ref_count_ext (trace s1 ! index) \<noteq> 0 \<and> size_v (trace s1 ! index) = sz
              \<and> s' = upd_var (s1\<lparr>heap_top := Suc (heap_top s1)\<rparr>) index (\<lambda>v. v\<lparr>data := Suc (heap_top s1)\<rparr>)"
      let ?s2 = "s1\<lparr>heap_top := Suc (heap_top s1)\<rparr>"
      have s': "s' = upd_var ?s2 index (\<lambda>v. v\<lparr>data := Suc (heap_top s1)\<rparr>)" using a by simp
      have "gstep s1 ?s2" by (simp add: gstep_def list_all2_refl)
      moreover have "gstep ?s2 s'" unfolding s'
        by (intro gstep_upd_var) (simp add: grows_def same_static_def)
      ultimately have g: "gstep s s'" using g1 by (blast intro: gstep_trans)
      have st: "stored sz (trace s' ! index)"
        unfolding s' using il len1 by (simp add: upd_var_same stored_def)
      have o: "\<forall>j<length (trace s). j \<noteq> index \<longrightarrow> evolves (trace s ! j) (trace s' ! j)"
        using g1 unfolding s' by (simp add: upd_var_other)
      from g il st o show ?thesis by blast
    qed
  qed
qed

lemma assemble_loop_gstep:
  "assemble_loop fuel rm sz sweep (out, ptrs, s) = Some (Inr (out', ptrs', s')) \<Longrightarrow>
   gstep s s'
   \<and> (\<forall>idx\<in>set sweep. idx < length (trace s) \<and> stored sz (trace s' ! idx))
   \<and> (\<forall>j<length (trace s). j \<notin> set sweep \<longrightarrow> evolves (trace s ! j) (trace s' ! j))"
proof (induction sweep arbitrary: out ptrs s)
  case Nil
  then show ?case by simp
next
  case (Cons index sweep)
  from Cons.prems obtain out1 ptrs1 s1 where
    n: "assemble_node fuel rm sz index (out, ptrs, s) = Some (Inr (out1, ptrs1, s1))"
    and l: "assemble_loop fuel rm sz sweep (out1, ptrs1, s1) = Some (Inr (out', ptrs', s'))"
    by (auto split: option.splits sum.splits)
  note a = assemble_node_gstep[OF n]
  note b = Cons.IH[OF l]
  have len: "length (trace s1) = length (trace s)" using a by (simp add: gstep_length)
  have g: "gstep s s'" using a b by (blast intro: gstep_trans)
  from a have il: "index < length (trace s1)" using len by simp
  from b have "gstep s1 s'" by simp
  from gstep_nth[OF this il] a have "stored sz (trace s' ! index)"
    by (blast intro: grows_stored)
  then have s: "\<forall>idx\<in>set (index # sweep). idx < length (trace s) \<and> stored sz (trace s' ! idx)"
    using a b len by simp
  have o: "\<forall>j<length (trace s). j \<notin> set (index # sweep) \<longrightarrow> evolves (trace s ! j) (trace s' ! j)"
  proof (intro allI impI)
    fix j assume j: "j < length (trace s)" "j \<notin> set (index # sweep)"
    with a have "evolves (trace s ! j) (trace s1 ! j)" by simp
    moreover from j b len have "evolves (trace s1 ! j) (trace s' ! j)" by simp
    ultimately show "evolves (trace s ! j) (trace s' ! j)" by (rule evolves_trans)
  qed
  from g s o show ?case by blast
qed

subsection \<open>Collapsing the edges, bucket by bucket\<close>

text \<open>
  After the loop over the slots of a node all its three dependencies are zero,
  and they stay zero. So once \<^verbatim>\<open>cuda_eval\<close> has run its last loop over a schedule,
  every node of the schedule is \<open>collapsed\<close>, and stays so through the buckets
  that follow.
\<close>

lemma dep_get_set_same [simp]: "dep_get (dep_set d i x) i = x"
  by (cases d) simp

lemma dep_le_get: "dep_le d d' \<Longrightarrow> dep_get d i = 0 \<Longrightarrow> dep_get d' i = 0"
  by (cases d; cases d') (auto split: if_splits)

lemma deps_all_zero: "dep_get d 0 = 0 \<Longrightarrow> dep_get d 1 = 0 \<Longrightarrow> dep_get d 2 = 0 \<Longrightarrow> d = (0, 0, 0)"
  by (cases d) simp

lemma step_dep_zero:
  "step s s' \<Longrightarrow> idx < length (trace s) \<Longrightarrow> dep_get (dep (trace s ! idx)) i = 0 \<Longrightarrow>
   dep_get (dep (trace s' ! idx)) i = 0"
  using step_nth[of s s' idx] by (auto simp: evolves_def grows_def intro: dep_le_get)

lemma release_deps_zero:
  "release_deps n s idx slots = Some (Inr s') \<Longrightarrow> idx < length (trace s) \<Longrightarrow>
   \<forall>i\<in>set slots. dep_get (dep (trace s' ! idx)) i = 0"
proof (induction slots arbitrary: s)
  case Nil
  then show ?case by simp
next
  case (Cons i slots)
  let ?z = "\<lambda>s1. upd_var s1 idx (\<lambda>v. v\<lparr>dep := dep_set (dep v) i 0\<rparr>)"
  from Cons.prems(1) obtain s1 where d: "cuda_dec_ref_int n s (dep_get (dep (trace s ! idx)) i) = Some (Inr s1)"
    and r: "release_deps n (?z s1) idx slots = Some (Inr s')"
    by (auto split: option.splits sum.splits)
  have len: "length (trace s1) = length (trace s)" using cascade_step(1)[OF d] by (rule step_length)
  then have il: "idx < length (trace (?z s1))" using Cons.prems(2) by simp
  have z: "dep_get (dep (trace (?z s1) ! idx)) i = 0"
    using Cons.prems(2) len by (simp add: upd_var_same)
  have "dep_get (dep (trace s' ! idx)) i = 0"
    using step_dep_zero[OF cascade_step(3)[OF r] il z] .
  with Cons.IH[OF r il] show ?case by simp
qed

lemma collapse_edges_step:
  "collapse_edges fuel s sched = Some (Inr s') \<Longrightarrow>
   step s s' \<and> (\<forall>idx\<in>set sched. idx < length (trace s) \<and> collapsed (trace s' ! idx))"
proof (induction sched arbitrary: s)
  case Nil
  then show ?case by simp
next
  case (Cons idx rest)
  from Cons.prems have il: "idx < length (trace s)"
    by (cases "idx < length (trace s)") simp_all
  show ?case
  proof (cases "data (trace s ! idx) \<noteq> 0 \<and> cmd (trace s ! idx) \<noteq> []")
    case True
    with Cons.prems il obtain s1 where r: "release_deps fuel s idx [0, 1, 2] = Some (Inr s1)"
      and c: "collapse_edges fuel s1 rest = Some (Inr s')"
      by (auto simp del: release_deps.simps split: option.splits sum.splits)
    have st1: "step s s1" using cascade_step(3)[OF r] .
    have len: "length (trace s1) = length (trace s)" using st1 by (rule step_length)
    from release_deps_zero[OF r il] have "dep (trace s1 ! idx) = (0, 0, 0)"
      by (intro deps_all_zero) simp_all
    then have c1: "collapsed (trace s1 ! idx)" by (simp add: collapsed_def)
    note ih = Cons.IH[OF c]
    from ih have st2: "step s1 s'" by simp
    from step_nth[OF st2] il len c1 have "collapsed (trace s' ! idx)"
      by (auto intro: evolves_collapsed)
    with ih il len st1 show ?thesis by (auto intro: step_trans)
  next
    case False
    with Cons.prems il have c: "collapse_edges fuel s rest = Some (Inr s')"
      by (auto simp del: release_deps.simps)
    note ih = Cons.IH[OF c]
    from False have "collapsed (trace s ! idx)" by (auto simp: collapsed_def)
    with step_nth[of s s' idx] ih il have "collapsed (trace s' ! idx)"
      by (auto intro: evolves_collapsed)
    with ih il show ?thesis by auto
  qed
qed

lemma run_sweeps_gstep:
  "run_sweeps fuel s sweeps = Some (Inr s') \<Longrightarrow>
   gstep s s'
   \<and> (\<forall>j<length (trace s). collapsed (trace s ! j) \<longrightarrow> collapsed (trace s' ! j))
   \<and> (\<forall>b\<in>set sweeps. \<forall>idx\<in>set (snd (snd b)).
         idx < length (trace s) \<and> collapsed (trace s' ! idx) \<and> stored (fst b) (trace s' ! idx))"
proof (induction sweeps arbitrary: s)
  case Nil
  then show ?case by simp
next
  case (Cons b rest)
  obtain sz entry where b: "b = (sz, entry)" by (cases b)
  from Cons.prems b obtain out ptrs s1 s2 where
    a: "assemble_loop fuel (fst (build_reg_map (snd entry))) sz (snd entry) ([], [], s) = Some (Inr (out, ptrs, s1))"
    and c: "collapse_edges fuel s1 (snd entry) = Some (Inr s2)"
    and r: "run_sweeps fuel s2 rest = Some (Inr s')"
    by (auto simp: cuda_jit_assemble_def split: option.splits sum.splits)
  note A = assemble_loop_gstep[OF a]
  note C = collapse_edges_step[OF c]
  note R = Cons.IH[OF r]
  have len1: "length (trace s1) = length (trace s)" using A by (simp add: gstep_length)
  from C have st12: "step s1 s2" by simp
  have len2: "length (trace s2) = length (trace s)" using step_length[OF st12] len1 by simp
  have g2: "gstep s s2" using A C by (blast intro: gstep_trans step_gstep)
  have g: "gstep s s'" using g2 R by (blast intro: gstep_trans)
  have col2: "\<forall>j<length (trace s). collapsed (trace s ! j) \<or> j \<in> set (snd entry) \<longrightarrow> collapsed (trace s2 ! j)"
  proof (intro allI impI)
    fix j assume j: "j < length (trace s)" and h: "collapsed (trace s ! j) \<or> j \<in> set (snd entry)"
    show "collapsed (trace s2 ! j)"
    proof (cases "j \<in> set (snd entry)")
      case True
      with C show ?thesis by simp
    next
      case False
      with h have "collapsed (trace s ! j)" by simp
      moreover from A j False have "evolves (trace s ! j) (trace s1 ! j)" by simp
      moreover from C j len1 have "evolves (trace s1 ! j) (trace s2 ! j)" by (simp add: step_nth)
      ultimately show ?thesis by (blast intro: evolves_collapsed)
    qed
  qed
  have col: "\<forall>j<length (trace s). collapsed (trace s ! j) \<or> j \<in> set (snd entry) \<longrightarrow> collapsed (trace s' ! j)"
    using col2 R len2 by simp
  have sto: "\<forall>idx\<in>set (snd entry). stored sz (trace s' ! idx)"
  proof
    fix idx assume i: "idx \<in> set (snd entry)"
    with A have il: "idx < length (trace s)" and st: "stored sz (trace s1 ! idx)" by simp_all
    have "gstep s1 s'" using C R by (blast intro: gstep_trans step_gstep)
    from gstep_nth[OF this] il len1 st show "stored sz (trace s' ! idx)"
      by (auto intro: grows_stored)
  qed
  have here: "\<forall>idx\<in>set (snd (snd b)). idx < length (trace s) \<and> collapsed (trace s' ! idx) \<and> stored (fst b) (trace s' ! idx)"
    using A col sto by (simp add: b)
  have there: "\<forall>b\<in>set rest. \<forall>idx\<in>set (snd (snd b)).
         idx < length (trace s) \<and> collapsed (trace s' ! idx) \<and> stored (fst b) (trace s' ! idx)"
    using R len2 by simp
  from g col here there show ?case by simp
qed

subsection \<open>Evaluation\<close>

lemma clear_dirty_result:
  "clear_dirty tr ds = Inr tr' \<Longrightarrow>
   length tr' = length tr
   \<and> (\<forall>i<length tr. tr' ! i = (if i \<in> set ds then (tr ! i)\<lparr>dirty := False\<rparr> else tr ! i))"
proof (induction ds arbitrary: tr)
  case Nil
  then show ?case by simp
next
  case (Cons idx rest)
  from Cons.prems have il: "idx < length tr"
    by (cases "idx < length tr") simp_all
  with Cons.prems have c: "clear_dirty (tr[idx := (tr ! idx)\<lparr>dirty := False\<rparr>]) rest = Inr tr'"
    by simp
  from Cons.IH[OF c] il show ?case
    by (auto simp: nth_list_update)
qed

lemma cuda_eval_phases:
  assumes "cuda_eval fuel s = Some (Inr s')"
  shows "\<exists>sweeps tr1. sweep_active fuel (trace s) (active s) [] = Some (Inr sweeps)
           \<and> clear_dirty (trace s) (dirty_list s) = Inr tr1
           \<and> run_sweeps fuel (s\<lparr>trace := tr1, active := [], dirty_list := []\<rparr>) sweeps = Some (Inr s')"
  using assms
  by (auto simp: cuda_eval_def split: option.splits sum.splits)

lemma dirty_inv_nth:
  "dirty_inv s \<Longrightarrow> i < length (trace s) \<Longrightarrow> dirty (trace s ! i) \<Longrightarrow> i \<in> set (dirty_list s)"
  by (auto simp: dirty_inv_def list_all_iff)

lemma cuda_eval_frame:
  assumes "cuda_eval fuel s = Some (Inr s')"
  shows "length (trace s') = length (trace s) \<and> active s' = [] \<and> dirty_list s' = []
     \<and> (\<forall>i<length (trace s).
           type_v (trace s' ! i) = type_v (trace s ! i) \<and> cmd (trace s' ! i) = cmd (trace s ! i)
         \<and> size_v (trace s' ! i) = size_v (trace s ! i)
         \<and> subtree_size (trace s' ! i) = subtree_size (trace s ! i)
         \<and> side_effect (trace s' ! i) = side_effect (trace s ! i)
         \<and> dirty (trace s' ! i) = (dirty (trace s ! i) \<and> i \<notin> set (dirty_list s)))"
proof -
  from cuda_eval_phases[OF assms] obtain sweeps tr1 where
    cd: "clear_dirty (trace s) (dirty_list s) = Inr tr1"
    and rs: "run_sweeps fuel (s\<lparr>trace := tr1, active := [], dirty_list := []\<rparr>) sweeps = Some (Inr s')"
    by blast
  let ?s1 = "s\<lparr>trace := tr1, active := [], dirty_list := []\<rparr>"
  note C = clear_dirty_result[OF cd]
  from run_sweeps_gstep[OF rs] have g: "gstep ?s1 s'" by simp
  have len: "length (trace s') = length (trace s)" using gstep_length[OF g] C by simp
  have a: "active s' = []" "dirty_list s' = []" using g by (simp_all add: gstep_def)
  have "\<forall>i<length (trace s).
           type_v (trace s' ! i) = type_v (trace s ! i) \<and> cmd (trace s' ! i) = cmd (trace s ! i)
         \<and> size_v (trace s' ! i) = size_v (trace s ! i)
         \<and> subtree_size (trace s' ! i) = subtree_size (trace s ! i)
         \<and> side_effect (trace s' ! i) = side_effect (trace s ! i)
         \<and> dirty (trace s' ! i) = (dirty (trace s ! i) \<and> i \<notin> set (dirty_list s))"
  proof (intro allI impI)
    fix i assume i: "i < length (trace s)"
    with C have i1: "i < length (trace ?s1)" by simp
    from gstep_nth[OF g i1] have ss: "same_static (tr1 ! i) (trace s' ! i)"
      by (simp add: grows_def)
    from C i have t: "tr1 ! i = (if i \<in> set (dirty_list s) then (trace s ! i)\<lparr>dirty := False\<rparr> else trace s ! i)"
      by simp
    from ss t show "type_v (trace s' ! i) = type_v (trace s ! i) \<and> cmd (trace s' ! i) = cmd (trace s ! i)
         \<and> size_v (trace s' ! i) = size_v (trace s ! i)
         \<and> subtree_size (trace s' ! i) = subtree_size (trace s ! i)
         \<and> side_effect (trace s' ! i) = side_effect (trace s ! i)
         \<and> dirty (trace s' ! i) = (dirty (trace s ! i) \<and> i \<notin> set (dirty_list s))"
      by (cases "i \<in> set (dirty_list s)") (simp_all add: same_static_def)
  qed
  with len a show ?thesis by blast
qed

lemma cuda_eval_clean:
  assumes "cuda_eval fuel s = Some (Inr s')" and "dirty_inv s"
  shows "\<forall>i<length (trace s'). \<not> dirty (trace s' ! i)"
proof (intro allI impI)
  fix i assume "i < length (trace s')"
  with cuda_eval_frame[OF assms(1)] have i: "i < length (trace s)"
    and d: "dirty (trace s' ! i) = (dirty (trace s ! i) \<and> i \<notin> set (dirty_list s))" by simp_all
  from dirty_inv_nth[OF assms(2) i] d show "\<not> dirty (trace s' ! i)" by blast
qed

text \<open>
  C6, as the code has it. Let \<^verbatim>\<open>cuda_eval\<close> return on a state whose dirty nodes are
  all queued. Then the active set and the dirty queue are empty and no node is
  dirty. For every node of every schedule that has a non-empty instruction
  template: if it holds a device pointer, its three dependency slots are zero;
  and it does hold a device pointer if it still has an external reference and its
  element count is the bucket's. A scheduled computed node without external
  reference (an intermediate value, or a side effect the scheduler released) and
  one whose count differs from the bucket's get no device pointer.
\<close>

theorem cuda_eval_postcondition:
  assumes "cuda_eval fuel s = Some (Inr s')" and "dirty_inv s"
  shows "active s' = [] \<and> dirty_list s' = []
     \<and> (\<forall>i<length (trace s'). \<not> dirty (trace s' ! i))
     \<and> (\<exists>sweeps. sweep_active fuel (trace s) (active s) [] = Some (Inr sweeps)
          \<and> (\<forall>b\<in>set sweeps. \<forall>idx\<in>set (snd (snd b)).
                idx < length (trace s') \<and>
                (cmd (trace s' ! idx) \<noteq> [] \<longrightarrow>
                   (data (trace s' ! idx) \<noteq> 0 \<longrightarrow> dep (trace s' ! idx) = (0, 0, 0))
                 \<and> (ref_count_ext (trace s' ! idx) \<noteq> 0 \<and> size_v (trace s' ! idx) = fst b
                      \<longrightarrow> data (trace s' ! idx) \<noteq> 0))))"
proof -
  from cuda_eval_phases[OF assms(1)] obtain sweeps tr1 where
    sa: "sweep_active fuel (trace s) (active s) [] = Some (Inr sweeps)"
    and cd: "clear_dirty (trace s) (dirty_list s) = Inr tr1"
    and rs: "run_sweeps fuel (s\<lparr>trace := tr1, active := [], dirty_list := []\<rparr>) sweeps = Some (Inr s')"
    by blast
  let ?s1 = "s\<lparr>trace := tr1, active := [], dirty_list := []\<rparr>"
  note F = cuda_eval_frame[OF assms(1)]
  have len1: "length (trace ?s1) = length (trace s')"
    using clear_dirty_result[OF cd] F by simp
  from run_sweeps_gstep[OF rs] have
    R: "\<forall>b\<in>set sweeps. \<forall>idx\<in>set (snd (snd b)).
         idx < length (trace ?s1) \<and> collapsed (trace s' ! idx) \<and> stored (fst b) (trace s' ! idx)"
    by blast
  have "\<forall>b\<in>set sweeps. \<forall>idx\<in>set (snd (snd b)).
                idx < length (trace s') \<and>
                (cmd (trace s' ! idx) \<noteq> [] \<longrightarrow>
                   (data (trace s' ! idx) \<noteq> 0 \<longrightarrow> dep (trace s' ! idx) = (0, 0, 0))
                 \<and> (ref_count_ext (trace s' ! idx) \<noteq> 0 \<and> size_v (trace s' ! idx) = fst b
                      \<longrightarrow> data (trace s' ! idx) \<noteq> 0))"
  proof (intro ballI)
    fix b idx assume "b \<in> set sweeps" "idx \<in> set (snd (snd b))"
    with R have "idx < length (trace ?s1)" "collapsed (trace s' ! idx)" "stored (fst b) (trace s' ! idx)"
      by blast+
    then show "idx < length (trace s') \<and>
                (cmd (trace s' ! idx) \<noteq> [] \<longrightarrow>
                   (data (trace s' ! idx) \<noteq> 0 \<longrightarrow> dep (trace s' ! idx) = (0, 0, 0))
                 \<and> (ref_count_ext (trace s' ! idx) \<noteq> 0 \<and> size_v (trace s' ! idx) = fst b
                      \<longrightarrow> data (trace s' ! idx) \<noteq> 0))"
      unfolding len1 collapsed_def stored_def by auto
  qed
  with sa F cuda_eval_clean[OF assms] show ?thesis by blast
qed

theorem cuda_eval_postcondition_witness:
  "active (ok (cuda_eval 3 with_dirty)) = []
   \<and> dirty_list (ok (cuda_eval 3 with_dirty)) = []
   \<and> dirty (trace with_dirty ! 11)
   \<and> \<not> dirty (trace (ok (cuda_eval 3 with_dirty)) ! 11)
   \<and> data (trace (ok (cuda_eval 3 with_dirty)) ! 11) \<noteq> 0
   \<and> dep (trace (ok (cuda_eval 3 with_dirty)) ! 11) = (0, 0, 0)"
proof -
  let ?S = "ok (cuda_eval 3 with_dirty)"
  have inv: "dirty_inv with_dirty" by code_simp
  have run: "cuda_eval 3 with_dirty = Some (Inr ?S)" by code_simp
  have sw: "sweep_active 3 (trace with_dirty) (active with_dirty) []
              = Some (Inr [(1, {10, 11}, [11, 10])])"
    by code_simp
  have len: "length (trace ?S) = 12" by code_simp
  have pre: "dirty (trace with_dirty ! 11)" by code_simp
  have node: "cmd (trace ?S ! 11) \<noteq> [] \<and> ref_count_ext (trace ?S ! 11) \<noteq> 0
                \<and> size_v (trace ?S ! 11) = 1"
    by code_simp
  from cuda_eval_postcondition [OF run inv] sw len
  have a: "active ?S = []" and b: "dirty_list ?S = []"
    and c: "\<forall>i<12. \<not> dirty (trace ?S ! i)"
    and d: "cmd (trace ?S ! 11) \<noteq> [] \<longrightarrow>
              (data (trace ?S ! 11) \<noteq> 0 \<longrightarrow> dep (trace ?S ! 11) = (0, 0, 0))
              \<and> (ref_count_ext (trace ?S ! 11) \<noteq> 0 \<and> size_v (trace ?S ! 11) = 1
                   \<longrightarrow> data (trace ?S ! 11) \<noteq> 0)"
    by simp_all
  from c have "\<not> dirty (trace ?S ! 11)" by simp
  with a b d node pre show ?thesis by simp
qed

text \<open>
  The claim as stated fails on \<open>with_side_effect\<close>: node 11 is scheduled and has
  an instruction template, and after the evaluation its device pointer is null.
\<close>

theorem cuda_eval_side_effect_node_without_pointer:
  "sweep_active 3 (trace with_side_effect) (active with_side_effect) []
     = Some (Inr [(1, {10, 11}, [11, 10])])
   \<and> map_option (map_sum id (\<lambda>s'. (cmd (trace s' ! 11), data (trace s' ! 11))))
        (cuda_eval 3 with_side_effect)
     = Some (Inr (''mov.u32 $r1, 2'', 0))"
  by code_simp

text \<open>
  The dirty queue covers the dirty flags from the start: \<^verbatim>\<open>cuda_init\<close> leaves no
  flag set, and \<^verbatim>\<open>cuda_var_mark_dirty\<close> queues the node whose flag it sets.
\<close>

lemma dirty_inv_cuda_init: "dirty_inv (cuda_init s)"
proof -
  have "\<not> dirty (trace (cuda_init s) ! i)" if "i < length (trace (cuda_init s))" for i
  proof -
    have "trace (cuda_init s) ! i \<in> set (trace (cuda_init s))" using that by (rule nth_mem)
    then show ?thesis by (auto simp: cuda_init_def new_Variable_def)
  qed
  then show ?thesis by (simp add: dirty_inv_def list_all_iff)
qed

lemma cuda_var_mark_dirty_dirty_inv:
  assumes "cuda_var_mark_dirty s index = Inr s'" and "dirty_inv s"
  shows "dirty_inv s' \<and> dirty (trace s' ! index) \<and> index \<in> set (dirty_list s')"
proof -
  from assms(1) have b: "ENOKI_CUDA_REG_RESERVED < index" "index < length (trace s)"
    and s': "s' = (upd_var s index (\<lambda>v. v\<lparr>dirty := True\<rparr>))\<lparr>dirty_list := dirty_list s @ [index]\<rparr>"
    by (auto simp: cuda_var_mark_dirty_def split: if_splits)
  have "i \<in> set (dirty_list s') \<or> \<not> dirty (trace s' ! i)" if "i < length (trace s')" for i
  proof (cases "i = index")
    case True
    then show ?thesis by (simp add: s')
  next
    case False
    from that have il: "i < length (trace s)" by (simp add: s' upd_var_def)
    from False have "trace s' ! i = trace s ! i" by (simp add: s' upd_var_def)
    with dirty_inv_nth[OF assms(2) il] show ?thesis by (auto simp: s')
  qed
  then have "dirty_inv s'" by (simp add: dirty_inv_def list_all_iff)
  moreover have "dirty (trace s' ! index)" using b by (simp add: s' upd_var_def)
  moreover have "index \<in> set (dirty_list s')" by (simp add: s')
  ultimately show ?thesis by simp
qed

subsection \<open>Inserting a node\<close>

text \<open>
  \<open>push_node\<close> returns whenever the operands are inside the trace. It appends
  one node with the given fields, clean and unmarked, puts it into the active
  set, and writes nothing but internal counts in the nodes that were there.
\<close>

lemma kept_refl [simp]: "kept v v"
  by (simp add: kept_def same_static_def)

lemma kept_trans: "kept v1 v2 \<Longrightarrow> kept v2 v3 \<Longrightarrow> kept v1 v3"
  by (simp add: kept_def same_static_def)

lemma only_int_refl: "only_int s s"
  by (simp add: only_int_def list_all2_refl)

lemma only_int_trans: "only_int s1 s2 \<Longrightarrow> only_int s2 s3 \<Longrightarrow> only_int s1 s3"
  unfolding only_int_def
  by (auto intro: list_all2_trans[where ?P1.0 = kept and ?P2.0 = kept, rotated] kept_trans)

lemma only_int_length: "only_int s s' \<Longrightarrow> length (trace s') = length (trace s)"
  by (auto simp: only_int_def dest: list_all2_lengthD)

lemma only_int_nth: "only_int s s' \<Longrightarrow> i < length (trace s) \<Longrightarrow> kept (trace s ! i) (trace s' ! i)"
  by (auto simp: only_int_def dest: list_all2_nthD)

lemma cuda_inc_ref_int_only_int:
  assumes "cuda_inc_ref_int s a = Inr s'"
  shows "only_int s s'"
proof (cases "a < ENOKI_CUDA_REG_RESERVED")
  case True
  with assms show ?thesis by (simp add: cuda_inc_ref_int_def only_int_refl)
next
  case False
  with assms have il: "a < length (trace s)"
    and s': "s' = upd_var s a (\<lambda>v. v\<lparr>ref_count_int := ref_count_int v + 1\<rparr>)"
    by (cases "a < length (trace s)"; simp add: cuda_inc_ref_int_def)+
  show ?thesis unfolding s' only_int_def upd_var_def using il
    by (auto simp: list_all2_conv_all_nth nth_list_update kept_def same_static_def)
qed

lemma inc_ref_int_all_only_int:
  "inc_ref_int_all s args = Inr s' \<Longrightarrow> only_int s s'"
proof (induction args arbitrary: s)
  case Nil
  then show ?case by (simp add: only_int_refl)
next
  case (Cons a args)
  then obtain s1 where a: "cuda_inc_ref_int s a = Inr s1" and r: "inc_ref_int_all s1 args = Inr s'"
    by (auto split: sum.splits)
  from cuda_inc_ref_int_only_int[OF a] Cons.IH[OF r] show ?case by (rule only_int_trans)
qed

lemma inc_ref_int_all_total:
  "\<forall>a\<in>set args. a < ENOKI_CUDA_REG_RESERVED \<or> a < length (trace s) \<Longrightarrow>
   \<exists>s'. inc_ref_int_all s args = Inr s'"
proof (induction args arbitrary: s)
  case Nil
  then show ?case by simp
next
  case (Cons a args)
  then have "\<exists>s1. cuda_inc_ref_int s a = Inr s1"
    by (auto simp: cuda_inc_ref_int_def)
  then obtain s1 where a: "cuda_inc_ref_int s a = Inr s1" ..
  from cuda_inc_ref_int_only_int[OF a] have "length (trace s1) = length (trace s)"
    by (rule only_int_length)
  with Cons.prems have "\<forall>a\<in>set args. a < ENOKI_CUDA_REG_RESERVED \<or> a < length (trace s1)" by simp
  from Cons.IH[OF this] a show ?case by simp
qed

lemma cuda_inc_ref_ext_new:
  assumes "cuda_inc_ref_ext s idx = Inr s'" and "i < length (trace s)"
  shows "length (trace s') = length (trace s) \<and> same_static (trace s ! i) (trace s' ! i)
       \<and> dep (trace s' ! i) = dep (trace s ! i)
       \<and> active s' = active s \<and> dirty_list s' = dirty_list s"
proof (cases "idx < ENOKI_CUDA_REG_RESERVED")
  case True
  with assms show ?thesis by (simp add: cuda_inc_ref_ext_def same_static_def)
next
  case False
  with assms have il: "idx < length (trace s)"
    and s': "s' = upd_var s idx (\<lambda>v. v\<lparr>ref_count_ext := ref_count_ext v + 1\<rparr>)"
    by (cases "idx < length (trace s)"; simp add: cuda_inc_ref_ext_def)+
  show ?thesis unfolding s' upd_var_def using assms(2) il
    by (auto simp: nth_list_update same_static_def)
qed

lemma same_static_trans: "same_static v1 v2 \<Longrightarrow> same_static v2 v3 \<Longrightarrow> same_static v1 v3"
  by (simp add: same_static_def)

lemma push_node_result:
  assumes "push_node s ty c args d sz st = Inr (s', idx)"
  shows "idx = length (trace s) \<and> length (trace s') = Suc (length (trace s))
     \<and> (\<forall>i<length (trace s). same_static (trace s ! i) (trace s' ! i))
     \<and> type_v (trace s' ! idx) = ty \<and> cmd (trace s' ! idx) = c \<and> dep (trace s' ! idx) = d
     \<and> size_v (trace s' ! idx) = sz \<and> subtree_size (trace s' ! idx) = st
     \<and> \<not> dirty (trace s' ! idx) \<and> \<not> side_effect (trace s' ! idx)
     \<and> active s' = List.insert idx (active s) \<and> dirty_list s' = dirty_list s"
proof -
  let ?idx = "length (trace s)"
  let ?var = "(new_Variable ty)\<lparr>size_v := sz, dep := d, cmd := c, subtree_size := st\<rparr>"
  let ?s1 = "s\<lparr>trace := trace s @ [?var]\<rparr>"
  have unf: "push_node s ty c args d sz st =
      (case inc_ref_int_all ?s1 args of
           Inl e \<Rightarrow> Inl e
         | Inr s2 \<Rightarrow>
             (case cuda_inc_ref_ext s2 ?idx of
                Inl e \<Rightarrow> Inl e
              | Inr s3 \<Rightarrow> Inr (s3\<lparr>active := List.insert ?idx (active s3)\<rparr>, ?idx)))"
    by (simp add: push_node_def Let_def)
  from assms unf obtain s2 where i: "inc_ref_int_all ?s1 args = Inr s2"
    by (cases "inc_ref_int_all ?s1 args") simp_all
  from assms unf i obtain s3 where e: "cuda_inc_ref_ext s2 ?idx = Inr s3"
    by (cases "cuda_inc_ref_ext s2 ?idx") simp_all
  from assms unf i e have s': "s' = s3\<lparr>active := List.insert ?idx (active s3)\<rparr>"
    and idx: "idx = ?idx" by auto
  note O = inc_ref_int_all_only_int[OF i]
  have len1: "length (trace ?s1) = Suc ?idx" by simp
  have len2: "length (trace s2) = Suc ?idx" using only_int_length[OF O] by simp
  have k: "\<And>i. i < Suc ?idx \<Longrightarrow> kept (trace ?s1 ! i) (trace s2 ! i)"
    using only_int_nth[OF O] by simp
  have e3: "\<And>i. i < Suc ?idx \<Longrightarrow> length (trace s3) = Suc ?idx
       \<and> same_static (trace s2 ! i) (trace s3 ! i) \<and> dep (trace s3 ! i) = dep (trace s2 ! i)
       \<and> active s3 = active s2 \<and> dirty_list s3 = dirty_list s2"
    using cuda_inc_ref_ext_new[OF e] len2 by simp
  have old: "\<forall>i<?idx. same_static (trace s ! i) (trace s' ! i)"
  proof (intro allI impI)
    fix i assume i: "i < ?idx"
    then have "trace ?s1 ! i = trace s ! i" by (simp add: nth_append)
    moreover from k[of i] i have "same_static (trace ?s1 ! i) (trace s2 ! i)" by (simp add: kept_def)
    moreover from e3[of i] i have "same_static (trace s2 ! i) (trace s3 ! i)" by simp
    ultimately show "same_static (trace s ! i) (trace s' ! i)"
      unfolding s' by (auto intro: same_static_trans)
  qed
  have v1: "trace ?s1 ! ?idx = ?var" by simp
  from k[of ?idx] have k2: "same_static ?var (trace s2 ! ?idx)" "dep (trace s2 ! ?idx) = d"
    unfolding v1 by (simp_all add: kept_def)
  from e3[of ?idx] have k3: "same_static (trace s2 ! ?idx) (trace s3 ! ?idx)"
    "dep (trace s3 ! ?idx) = dep (trace s2 ! ?idx)" by simp_all
  from k2 k3 have "same_static ?var (trace s' ! ?idx)" "dep (trace s' ! ?idx) = d"
    unfolding s' by (auto intro: same_static_trans)
  then have new: "type_v (trace s' ! ?idx) = ty \<and> cmd (trace s' ! ?idx) = c \<and> dep (trace s' ! ?idx) = d
     \<and> size_v (trace s' ! ?idx) = sz \<and> subtree_size (trace s' ! ?idx) = st
     \<and> \<not> dirty (trace s' ! ?idx) \<and> \<not> side_effect (trace s' ! ?idx)"
    by (simp add: same_static_def new_Variable_def)
  have len': "length (trace s') = Suc ?idx" using e3[of 0] unfolding s' by simp
  have act: "active s' = List.insert ?idx (active s)" "dirty_list s' = dirty_list s"
    using e3[of 0] O unfolding s' by (simp_all add: only_int_def)
  from idx len' old new act show ?thesis by simp
qed

lemma push_node_total:
  assumes "\<forall>a\<in>set args. a < length (trace s)"
  shows "\<exists>s'. push_node s ty c args d sz st = Inr (s', length (trace s))"
proof -
  let ?var = "(new_Variable ty)\<lparr>size_v := sz, dep := d, cmd := c, subtree_size := st\<rparr>"
  let ?s1 = "s\<lparr>trace := trace s @ [?var]\<rparr>"
  from assms have "\<forall>a\<in>set args. a < ENOKI_CUDA_REG_RESERVED \<or> a < length (trace ?s1)" by auto
  from inc_ref_int_all_total[OF this] obtain s2 where i: "inc_ref_int_all ?s1 args = Inr s2" ..
  from only_int_length[OF inc_ref_int_all_only_int[OF i]]
  have "length (trace s2) = Suc (length (trace s))" by simp
  then have "\<exists>s3. cuda_inc_ref_ext s2 (length (trace s)) = Inr s3"
    by (simp add: cuda_inc_ref_ext_def)
  then obtain s3 where "cuda_inc_ref_ext s2 (length (trace s)) = Inr s3" ..
  with i show ?thesis by (simp add: push_node_def Let_def)
qed

subsection \<open>The append overloads\<close>

lemma maybe_eval:
  assumes "(if D then cuda_eval fuel s else Some (Inr s)) = Some (Inr s1)"
  shows "length (trace s1) = length (trace s)
     \<and> (\<forall>i<length (trace s).
            size_v (trace s1 ! i) = size_v (trace s ! i)
          \<and> subtree_size (trace s1 ! i) = subtree_size (trace s ! i)
          \<and> (dirty (trace s1 ! i) \<longrightarrow> dirty (trace s ! i) \<and> \<not> (D \<and> dirty_inv s)))
     \<and> (dirty_inv s \<longrightarrow> dirty_inv s1)"
proof (cases D)
  case False
  with assms have "s1 = s" by simp
  with False show ?thesis by simp
next
  case True
  with assms have e: "cuda_eval fuel s = Some (Inr s1)" by simp
  note F = cuda_eval_frame[OF e]
  have c: "dirty_inv s \<Longrightarrow> \<forall>i<length (trace s1). \<not> dirty (trace s1 ! i)"
    using cuda_eval_clean[OF e] by simp
  have "dirty_inv s \<longrightarrow> dirty_inv s1"
    using c by (auto simp: dirty_inv_def list_all_iff)
  moreover have "\<forall>i<length (trace s).
            size_v (trace s1 ! i) = size_v (trace s ! i)
          \<and> subtree_size (trace s1 ! i) = subtree_size (trace s ! i)
          \<and> (dirty (trace s1 ! i) \<longrightarrow> dirty (trace s ! i) \<and> \<not> (D \<and> dirty_inv s))"
    using F c by auto
  ultimately show ?thesis using F by simp
qed


lemma append1_phases:
  assumes "cuda_trace_append1 fuel s ty c a1 = Some (Inr (s', idx))"
  shows "a1 < length (trace s) \<and>
    (\<exists>s1. (if dirty (trace s ! a1) then cuda_eval fuel s else Some (Inr s)) = Some (Inr s1)
       \<and> push_node s1 ty c [a1] (a1, 0, 0) (size_v (trace s1 ! a1))
            (subtree_size (trace s1 ! a1) + 1) = Inr (s', idx))"
proof -
  let ?e = "if dirty (trace s ! a1) then cuda_eval fuel s else Some (Inr s)"
  from assms have v: "a1 < length (trace s)"
    by (cases "a1 < length (trace s)") (simp_all add: cuda_trace_append1_def)
  with assms obtain s1 where e: "?e = Some (Inr s1)"
    by (cases ?e) (auto simp: cuda_trace_append1_def split: sum.splits)
  with assms v show ?thesis by (simp add: cuda_trace_append1_def)
qed

lemma append2_phases:
  assumes "cuda_trace_append2 fuel s ty c a1 a2 = Some (Inr (s', idx))"
  shows "a1 < length (trace s) \<and> a2 < length (trace s) \<and>
    (\<exists>s1. (if dirty (trace s ! a1) \<or> dirty (trace s ! a2) then cuda_eval fuel s else Some (Inr s))
             = Some (Inr s1)
       \<and> push_node s1 ty c [a1, a2] (a1, a2, 0)
            (max (size_v (trace s1 ! a1)) (size_v (trace s1 ! a2)))
            (subtree_size (trace s1 ! a1) + subtree_size (trace s1 ! a2) + 1) = Inr (s', idx))"
proof -
  let ?e = "if dirty (trace s ! a1) \<or> dirty (trace s ! a2) then cuda_eval fuel s else Some (Inr s)"
  from assms have v: "a1 < length (trace s) \<and> a2 < length (trace s)"
    by (cases "a1 < length (trace s) \<and> a2 < length (trace s)") (simp_all add: cuda_trace_append2_def)
  with assms obtain s1 where e: "?e = Some (Inr s1)"
    by (cases ?e) (auto simp: cuda_trace_append2_def split: sum.splits)
  with assms v show ?thesis by (simp add: cuda_trace_append2_def)
qed

lemma append3_phases:
  assumes "cuda_trace_append3 fuel s ty c a1 a2 a3 = Some (Inr (s', idx))"
  shows "a1 < length (trace s) \<and> a2 < length (trace s) \<and> a3 < length (trace s) \<and>
    (\<exists>s1. (if dirty (trace s ! a1) \<or> dirty (trace s ! a2) \<or> dirty (trace s ! a3)
            then cuda_eval fuel s else Some (Inr s)) = Some (Inr s1)
       \<and> push_node s1 ty c [a1, a2, a3] (a1, a2, a3)
            (max (max (size_v (trace s1 ! a1)) (size_v (trace s1 ! a2))) (size_v (trace s1 ! a3)))
            (subtree_size (trace s1 ! a1) + subtree_size (trace s1 ! a2)
               + subtree_size (trace s1 ! a3) + 1) = Inr (s', idx))"
proof -
  let ?e = "if dirty (trace s ! a1) \<or> dirty (trace s ! a2) \<or> dirty (trace s ! a3)
            then cuda_eval fuel s else Some (Inr s)"
  from assms have v: "a1 < length (trace s) \<and> a2 < length (trace s) \<and> a3 < length (trace s)"
    by (cases "a1 < length (trace s) \<and> a2 < length (trace s) \<and> a3 < length (trace s)")
      (simp_all add: cuda_trace_append3_def)
  with assms obtain s1 where e: "?e = Some (Inr s1)"
    by (cases ?e) (auto simp: cuda_trace_append3_def split: sum.splits)
  with assms v show ?thesis by (simp add: cuda_trace_append3_def)
qed

lemma append_operand:
  assumes e: "(if D then cuda_eval fuel s else Some (Inr s)) = Some (Inr s1)"
    and p: "push_node s1 ty c args d sz st = Inr (s', idx)"
    and a: "a < length (trace s)"
  shows "a < idx \<and> idx = length (trace s)
     \<and> size_v (trace s1 ! a) = size_v (trace s ! a)
     \<and> subtree_size (trace s1 ! a) = subtree_size (trace s ! a)
     \<and> size_v (trace s' ! a) = size_v (trace s ! a)
     \<and> subtree_size (trace s' ! a) = subtree_size (trace s ! a)
     \<and> (dirty (trace s' ! a) = dirty (trace s1 ! a))
     \<and> (dirty (trace s1 ! a) \<longrightarrow> dirty (trace s ! a) \<and> \<not> (D \<and> dirty_inv s))"
proof -
  note E = maybe_eval[OF e]
  note P = push_node_result[OF p]
  from E a have a1: "a < length (trace s1)" by simp
  with P have "same_static (trace s1 ! a) (trace s' ! a)" by simp
  then have "size_v (trace s' ! a) = size_v (trace s1 ! a)"
    "subtree_size (trace s' ! a) = subtree_size (trace s1 ! a)"
    "dirty (trace s' ! a) = dirty (trace s1 ! a)"
    by (simp_all add: same_static_def)
  with E P a show ?thesis by simp
qed

lemma unat_sum2:
  fixes x y :: "32 word"
  shows "unat x + unat y + 1 < 2 ^ 32 \<Longrightarrow> unat (x + y + 1) = unat x + unat y + 1"
  by (simp add: unat_word_ariths)

lemma unat_sum1:
  fixes x :: "32 word"
  shows "unat x + 1 < 2 ^ 32 \<Longrightarrow> unat (x + 1) = unat x + 1"
  by (simp add: unat_word_ariths)

lemma unat_sum3:
  fixes x y z :: "32 word"
  shows "unat x + unat y + unat z + 1 < 2 ^ 32 \<Longrightarrow> unat (x + y + z + 1) = unat x + unat y + unat z + 1"
  by (simp add: unat_word_ariths)

lemma cuda_trace_append0_result:
  "\<exists>s'. cuda_trace_append0 s ty c = Inr (s', length (trace s))
        \<and> subtree_size (trace s' ! length (trace s)) = 1
        \<and> size_v (trace s' ! length (trace s)) = 1
        \<and> dep (trace s' ! length (trace s)) = (0, 0, 0)"
  by (cases "length (trace s) < ENOKI_CUDA_REG_RESERVED")
    (simp_all add: cuda_trace_append0_def Let_def cuda_inc_ref_ext_def upd_var_def new_Variable_def)

text \<open>
  C7. The append without operands always returns: the new node has subtree size 1
  and element count 1. When an append with operands returns, the new node has the
  index that was the length of the trace, its \<^verbatim>\<open>subtree_size\<close> is 1 plus the sum of
  the operands' \<^verbatim>\<open>subtree_size\<close> fields (a \<^verbatim>\<open>uint32_t\<close> sum; it is the sum of the
  numbers as long as that stays below \<open>2^32\<close>), and its element count is the
  maximum of the operands' counts; the operands' own fields are the same before
  and after the call, also when the call evaluated the trace first. With valid
  operands none of which is dirty, the append does return.
\<close>

theorem append_subtree_size_and_count:
  "(\<exists>s'. cuda_trace_append0 s ty c = Inr (s', length (trace s))
          \<and> subtree_size (trace s' ! length (trace s)) = 1
          \<and> size_v (trace s' ! length (trace s)) = 1)
   \<and> (\<forall>s' idx. cuda_trace_append1 fuel s ty c a1 = Some (Inr (s', idx)) \<longrightarrow>
          idx = length (trace s) \<and> a1 < idx
        \<and> subtree_size (trace s' ! idx) = 1 + subtree_size (trace s ! a1)
        \<and> size_v (trace s' ! idx) = size_v (trace s ! a1)
        \<and> subtree_size (trace s' ! a1) = subtree_size (trace s ! a1)
        \<and> size_v (trace s' ! a1) = size_v (trace s ! a1)
        \<and> (unat (subtree_size (trace s ! a1)) + 1 < 2 ^ 32 \<longrightarrow>
             unat (subtree_size (trace s' ! idx)) = 1 + unat (subtree_size (trace s ! a1))))
   \<and> (\<forall>s' idx. cuda_trace_append2 fuel s ty c a1 a2 = Some (Inr (s', idx)) \<longrightarrow>
          idx = length (trace s) \<and> a1 < idx \<and> a2 < idx
        \<and> subtree_size (trace s' ! idx)
            = 1 + (subtree_size (trace s ! a1) + subtree_size (trace s ! a2))
        \<and> size_v (trace s' ! idx) = max (size_v (trace s ! a1)) (size_v (trace s ! a2))
        \<and> subtree_size (trace s' ! a1) = subtree_size (trace s ! a1)
        \<and> subtree_size (trace s' ! a2) = subtree_size (trace s ! a2)
        \<and> size_v (trace s' ! a1) = size_v (trace s ! a1)
        \<and> size_v (trace s' ! a2) = size_v (trace s ! a2)
        \<and> (unat (subtree_size (trace s ! a1)) + unat (subtree_size (trace s ! a2)) + 1 < 2 ^ 32 \<longrightarrow>
             unat (subtree_size (trace s' ! idx))
               = 1 + (unat (subtree_size (trace s ! a1)) + unat (subtree_size (trace s ! a2)))))
   \<and> (\<forall>s' idx. cuda_trace_append3 fuel s ty c a1 a2 a3 = Some (Inr (s', idx)) \<longrightarrow>
          idx = length (trace s) \<and> a1 < idx \<and> a2 < idx \<and> a3 < idx
        \<and> subtree_size (trace s' ! idx)
            = 1 + (subtree_size (trace s ! a1) + subtree_size (trace s ! a2)
                   + subtree_size (trace s ! a3))
        \<and> size_v (trace s' ! idx)
            = max (max (size_v (trace s ! a1)) (size_v (trace s ! a2))) (size_v (trace s ! a3))
        \<and> subtree_size (trace s' ! a1) = subtree_size (trace s ! a1)
        \<and> subtree_size (trace s' ! a2) = subtree_size (trace s ! a2)
        \<and> subtree_size (trace s' ! a3) = subtree_size (trace s ! a3)
        \<and> size_v (trace s' ! a1) = size_v (trace s ! a1)
        \<and> size_v (trace s' ! a2) = size_v (trace s ! a2)
        \<and> size_v (trace s' ! a3) = size_v (trace s ! a3)
        \<and> (unat (subtree_size (trace s ! a1)) + unat (subtree_size (trace s ! a2))
              + unat (subtree_size (trace s ! a3)) + 1 < 2 ^ 32 \<longrightarrow>
             unat (subtree_size (trace s' ! idx))
               = 1 + (unat (subtree_size (trace s ! a1)) + unat (subtree_size (trace s ! a2))
                      + unat (subtree_size (trace s ! a3)))))
   \<and> (a1 < length (trace s) \<and> \<not> dirty (trace s ! a1) \<longrightarrow>
        (\<exists>s'. cuda_trace_append1 fuel s ty c a1 = Some (Inr (s', length (trace s)))))
   \<and> (a1 < length (trace s) \<and> a2 < length (trace s)
        \<and> \<not> dirty (trace s ! a1) \<and> \<not> dirty (trace s ! a2) \<longrightarrow>
        (\<exists>s'. cuda_trace_append2 fuel s ty c a1 a2 = Some (Inr (s', length (trace s)))))
   \<and> (a1 < length (trace s) \<and> a2 < length (trace s) \<and> a3 < length (trace s)
        \<and> \<not> dirty (trace s ! a1) \<and> \<not> dirty (trace s ! a2) \<and> \<not> dirty (trace s ! a3) \<longrightarrow>
        (\<exists>s'. cuda_trace_append3 fuel s ty c a1 a2 a3 = Some (Inr (s', length (trace s)))))"
proof (intro conjI allI impI)
  show "\<exists>s'. cuda_trace_append0 s ty c = Inr (s', length (trace s))
          \<and> subtree_size (trace s' ! length (trace s)) = 1
          \<and> size_v (trace s' ! length (trace s)) = 1"
    using cuda_trace_append0_result[of s ty c] by blast
next
  fix s' idx
  assume r: "cuda_trace_append1 fuel s ty c a1 = Some (Inr (s', idx))"
  from append1_phases[OF r] obtain s1 where v: "a1 < length (trace s)"
    and e: "(if dirty (trace s ! a1) then cuda_eval fuel s else Some (Inr s)) = Some (Inr s1)"
    and p: "push_node s1 ty c [a1] (a1, 0, 0) (size_v (trace s1 ! a1))
            (subtree_size (trace s1 ! a1) + 1) = Inr (s', idx)"
    by blast
  note A1 = append_operand[OF e p v]
  note P = push_node_result[OF p]
  from P have pst: "subtree_size (trace s' ! idx) = subtree_size (trace s1 ! a1) + 1"
    and psz: "size_v (trace s' ! idx) = size_v (trace s1 ! a1)" by auto
  from A1 have q: "subtree_size (trace s1 ! a1) = subtree_size (trace s ! a1)"
    "size_v (trace s1 ! a1) = size_v (trace s ! a1)" by simp_all
  have st: "subtree_size (trace s' ! idx) = subtree_size (trace s ! a1) + 1"
    and sz: "size_v (trace s' ! idx) = size_v (trace s ! a1)"
    unfolding pst psz q by simp_all
  show "idx = length (trace s)" "a1 < idx" using A1 by simp_all
  show "subtree_size (trace s' ! idx) = 1 + subtree_size (trace s ! a1)" using st by simp
  show "size_v (trace s' ! idx) = size_v (trace s ! a1)" using sz .
  show "subtree_size (trace s' ! a1) = subtree_size (trace s ! a1)"
    "size_v (trace s' ! a1) = size_v (trace s ! a1)" using A1 by simp_all
  assume "unat (subtree_size (trace s ! a1)) + 1 < 2 ^ 32"
  then show "unat (subtree_size (trace s' ! idx)) = 1 + unat (subtree_size (trace s ! a1))"
    unfolding st by (simp add: unat_sum1)
next
  fix s' idx
  assume r: "cuda_trace_append2 fuel s ty c a1 a2 = Some (Inr (s', idx))"
  from append2_phases[OF r] obtain s1 where v: "a1 < length (trace s)" "a2 < length (trace s)"
    and e: "(if dirty (trace s ! a1) \<or> dirty (trace s ! a2) then cuda_eval fuel s else Some (Inr s))
             = Some (Inr s1)"
    and p: "push_node s1 ty c [a1, a2] (a1, a2, 0)
            (max (size_v (trace s1 ! a1)) (size_v (trace s1 ! a2)))
            (subtree_size (trace s1 ! a1) + subtree_size (trace s1 ! a2) + 1) = Inr (s', idx)"
    by blast
  note A1 = append_operand[OF e p v(1)]
  note A2 = append_operand[OF e p v(2)]
  note P = push_node_result[OF p]
  from P have pst: "subtree_size (trace s' ! idx)
      = subtree_size (trace s1 ! a1) + subtree_size (trace s1 ! a2) + 1"
    and psz: "size_v (trace s' ! idx) = max (size_v (trace s1 ! a1)) (size_v (trace s1 ! a2))"
    by auto
  from A1 A2 have q: "subtree_size (trace s1 ! a1) = subtree_size (trace s ! a1)"
    "size_v (trace s1 ! a1) = size_v (trace s ! a1)"
    "subtree_size (trace s1 ! a2) = subtree_size (trace s ! a2)"
    "size_v (trace s1 ! a2) = size_v (trace s ! a2)" by simp_all
  have st: "subtree_size (trace s' ! idx)
      = subtree_size (trace s ! a1) + subtree_size (trace s ! a2) + 1"
    and sz: "size_v (trace s' ! idx) = max (size_v (trace s ! a1)) (size_v (trace s ! a2))"
    unfolding pst psz q by simp_all
  show "idx = length (trace s)" "a1 < idx" "a2 < idx" using A1 A2 by simp_all
  show "subtree_size (trace s' ! idx) = 1 + (subtree_size (trace s ! a1) + subtree_size (trace s ! a2))"
    using st by simp
  show "size_v (trace s' ! idx) = max (size_v (trace s ! a1)) (size_v (trace s ! a2))" using sz .
  show "subtree_size (trace s' ! a1) = subtree_size (trace s ! a1)"
    "subtree_size (trace s' ! a2) = subtree_size (trace s ! a2)"
    "size_v (trace s' ! a1) = size_v (trace s ! a1)"
    "size_v (trace s' ! a2) = size_v (trace s ! a2)" using A1 A2 by simp_all
  assume "unat (subtree_size (trace s ! a1)) + unat (subtree_size (trace s ! a2)) + 1 < 2 ^ 32"
  then show "unat (subtree_size (trace s' ! idx))
               = 1 + (unat (subtree_size (trace s ! a1)) + unat (subtree_size (trace s ! a2)))"
    unfolding st by (simp add: unat_sum2)
next
  fix s' idx
  assume r: "cuda_trace_append3 fuel s ty c a1 a2 a3 = Some (Inr (s', idx))"
  from append3_phases[OF r] obtain s1 where
    v: "a1 < length (trace s)" "a2 < length (trace s)" "a3 < length (trace s)"
    and e: "(if dirty (trace s ! a1) \<or> dirty (trace s ! a2) \<or> dirty (trace s ! a3)
            then cuda_eval fuel s else Some (Inr s)) = Some (Inr s1)"
    and p: "push_node s1 ty c [a1, a2, a3] (a1, a2, a3)
            (max (max (size_v (trace s1 ! a1)) (size_v (trace s1 ! a2))) (size_v (trace s1 ! a3)))
            (subtree_size (trace s1 ! a1) + subtree_size (trace s1 ! a2)
               + subtree_size (trace s1 ! a3) + 1) = Inr (s', idx)"
    by blast
  note A1 = append_operand[OF e p v(1)]
  note A2 = append_operand[OF e p v(2)]
  note A3 = append_operand[OF e p v(3)]
  note P = push_node_result[OF p]
  from P have pst: "subtree_size (trace s' ! idx)
      = subtree_size (trace s1 ! a1) + subtree_size (trace s1 ! a2)
        + subtree_size (trace s1 ! a3) + 1"
    and psz: "size_v (trace s' ! idx)
      = max (max (size_v (trace s1 ! a1)) (size_v (trace s1 ! a2))) (size_v (trace s1 ! a3))"
    by auto
  from A1 A2 A3 have q: "subtree_size (trace s1 ! a1) = subtree_size (trace s ! a1)"
    "size_v (trace s1 ! a1) = size_v (trace s ! a1)"
    "subtree_size (trace s1 ! a2) = subtree_size (trace s ! a2)"
    "size_v (trace s1 ! a2) = size_v (trace s ! a2)"
    "subtree_size (trace s1 ! a3) = subtree_size (trace s ! a3)"
    "size_v (trace s1 ! a3) = size_v (trace s ! a3)" by simp_all
  have st: "subtree_size (trace s' ! idx)
      = subtree_size (trace s ! a1) + subtree_size (trace s ! a2) + subtree_size (trace s ! a3) + 1"
    and sz: "size_v (trace s' ! idx)
      = max (max (size_v (trace s ! a1)) (size_v (trace s ! a2))) (size_v (trace s ! a3))"
    unfolding pst psz q by simp_all
  show "idx = length (trace s)" "a1 < idx" "a2 < idx" "a3 < idx" using A1 A2 A3 by simp_all
  show "subtree_size (trace s' ! idx)
            = 1 + (subtree_size (trace s ! a1) + subtree_size (trace s ! a2)
                   + subtree_size (trace s ! a3))"
    using st by simp
  show "size_v (trace s' ! idx)
            = max (max (size_v (trace s ! a1)) (size_v (trace s ! a2))) (size_v (trace s ! a3))"
    using sz .
  show "subtree_size (trace s' ! a1) = subtree_size (trace s ! a1)"
    "subtree_size (trace s' ! a2) = subtree_size (trace s ! a2)"
    "subtree_size (trace s' ! a3) = subtree_size (trace s ! a3)"
    "size_v (trace s' ! a1) = size_v (trace s ! a1)"
    "size_v (trace s' ! a2) = size_v (trace s ! a2)"
    "size_v (trace s' ! a3) = size_v (trace s ! a3)" using A1 A2 A3 by simp_all
  assume "unat (subtree_size (trace s ! a1)) + unat (subtree_size (trace s ! a2))
              + unat (subtree_size (trace s ! a3)) + 1 < 2 ^ 32"
  then show "unat (subtree_size (trace s' ! idx))
               = 1 + (unat (subtree_size (trace s ! a1)) + unat (subtree_size (trace s ! a2))
                      + unat (subtree_size (trace s ! a3)))"
    unfolding st by (simp add: unat_sum3)
next
  assume "a1 < length (trace s) \<and> \<not> dirty (trace s ! a1)"
  then show "\<exists>s'. cuda_trace_append1 fuel s ty c a1 = Some (Inr (s', length (trace s)))"
    using push_node_total[of "[a1]" s ty c "(a1, 0, 0)" "size_v (trace s ! a1)"
        "subtree_size (trace s ! a1) + 1"]
    by (simp add: cuda_trace_append1_def)
next
  assume "a1 < length (trace s) \<and> a2 < length (trace s)
        \<and> \<not> dirty (trace s ! a1) \<and> \<not> dirty (trace s ! a2)"
  then show "\<exists>s'. cuda_trace_append2 fuel s ty c a1 a2 = Some (Inr (s', length (trace s)))"
    using push_node_total[of "[a1, a2]" s ty c "(a1, a2, 0)"
        "max (size_v (trace s ! a1)) (size_v (trace s ! a2))"
        "subtree_size (trace s ! a1) + subtree_size (trace s ! a2) + 1"]
    by (simp add: cuda_trace_append2_def)
next
  assume "a1 < length (trace s) \<and> a2 < length (trace s) \<and> a3 < length (trace s)
        \<and> \<not> dirty (trace s ! a1) \<and> \<not> dirty (trace s ! a2) \<and> \<not> dirty (trace s ! a3)"
  then show "\<exists>s'. cuda_trace_append3 fuel s ty c a1 a2 a3 = Some (Inr (s', length (trace s)))"
    using push_node_total[of "[a1, a2, a3]" s ty c "(a1, a2, a3)"
        "max (max (size_v (trace s ! a1)) (size_v (trace s ! a2))) (size_v (trace s ! a3))"
        "subtree_size (trace s ! a1) + subtree_size (trace s ! a2) + subtree_size (trace s ! a3) + 1"]
    by (simp add: cuda_trace_append3_def)
qed


theorem append_subtree_size_and_count_witness:
  "subtree_size (trace with_dirty ! 11) = 1
   \<and> subtree_size
        (trace (fst (ok (cuda_trace_append1 3 with_dirty UInt32 ''add.u32 $r1, $r2, 1'' 11))) ! 12)
       = 2
   \<and> subtree_size
        (trace (fst (ok (cuda_trace_append2 0 two_nodes UInt32 ''add.u32 $r1, $r2, $r3'' 10 11))) ! 12)
       = 3
   \<and> size_v
        (trace (fst (ok (cuda_trace_append2 0 two_nodes UInt32 ''add.u32 $r1, $r2, $r3'' 10 11))) ! 12)
       = 1"
proof -
  let ?c1 = "''add.u32 $r1, $r2, 1''"
  let ?c2 = "''add.u32 $r1, $r2, $r3''"
  let ?r1 = "ok (cuda_trace_append1 3 with_dirty UInt32 ?c1 11)"
  let ?r2 = "ok (cuda_trace_append2 0 two_nodes UInt32 ?c2 10 11)"
  have run1: "cuda_trace_append1 3 with_dirty UInt32 ?c1 11 = Some (Inr (fst ?r1, 12))"
    by code_simp
  have run2: "cuda_trace_append2 0 two_nodes UInt32 ?c2 10 11 = Some (Inr (fst ?r2, 12))"
    by code_simp
  have f1: "subtree_size (trace with_dirty ! 11) = 1" by code_simp
  have f2: "subtree_size (trace two_nodes ! 10) = 1 \<and> subtree_size (trace two_nodes ! 11) = 1
            \<and> size_v (trace two_nodes ! 10) = 1 \<and> size_v (trace two_nodes ! 11) = 1"
    by code_simp
  from append_subtree_size_and_count [of with_dirty UInt32 ?c1 3 11 10 11] run1
  have a: "subtree_size (trace (fst ?r1) ! 12) = 1 + subtree_size (trace with_dirty ! 11)"
    by blast
  from append_subtree_size_and_count [of two_nodes UInt32 ?c2 0 10 11 10] run2
  have b: "subtree_size (trace (fst ?r2) ! 12)
             = 1 + (subtree_size (trace two_nodes ! 10) + subtree_size (trace two_nodes ! 11))"
    and c: "size_v (trace (fst ?r2) ! 12)
             = max (size_v (trace two_nodes ! 10)) (size_v (trace two_nodes ! 11))"
    by blast+
  from a b c f1 f2 show ?thesis by simp
qed







subsection \<open>Side-effect nodes and the active set\<close>

text \<open>
  C1, as the code has it. On a valid index above the reserved count,
  \<^verbatim>\<open>cuda_var_mark_side_effect\<close> sets the flag and nothing else: the active set and
  both reference counts are as before. The marked node is held in the active set
  by its external reference like any other node: an external decrement lowers
  the count by one, removes the node from the active set when the count reaches
  zero, and leaves the active set alone otherwise. When \<^verbatim>\<open>cuda_jit_assemble\<close> emits
  the marked node (a computed node, without device pointer), it releases one
  external reference of it.
\<close>

theorem side_effect_mark_and_release:
  assumes "ENOKI_CUDA_REG_RESERVED < i" and "i < length (trace s)"
  shows "\<exists>s1. cuda_var_mark_side_effect s i = Inr s1
      \<and> s1 = upd_var s i (\<lambda>v. v\<lparr>side_effect := True\<rparr>)
      \<and> side_effect (trace s1 ! i)
      \<and> active s1 = active s
      \<and> ref_count_ext (trace s1 ! i) = ref_count_ext (trace s ! i)
      \<and> ref_count_int (trace s1 ! i) = ref_count_int (trace s ! i)
      \<and> (\<forall>fuel s2. cuda_dec_ref_ext fuel s1 i = Some (Inr s2) \<longrightarrow>
            ref_count_ext (trace s2 ! i) = ref_count_ext (trace s ! i) - 1
          \<and> (ref_count_ext (trace s ! i) = 1 \<longrightarrow> i \<notin> set (active s2))
          \<and> (ref_count_ext (trace s ! i) \<noteq> 1 \<longrightarrow> active s2 = active s))
      \<and> (\<forall>fuel reg_map sz out ptrs out' ptrs' s3.
            data (trace s ! i) = 0
            \<and> assemble_node fuel reg_map sz i (out, ptrs, s1) = Some (Inr (out', ptrs', s3)) \<longrightarrow>
            ref_count_ext (trace s3 ! i) = ref_count_ext (trace s ! i) - 1)"
proof -
  let ?s1 = "upd_var s i (\<lambda>v. v\<lparr>side_effect := True\<rparr>)"
  have m: "cuda_var_mark_side_effect s i = Inr ?s1"
    using assms by (simp add: cuda_var_mark_side_effect_def)
  have v1: "trace ?s1 ! i = (trace s ! i)\<lparr>side_effect := True\<rparr>"
    using assms(2) by (simp add: upd_var_same)
  have ne: "trace ?s1 \<noteq> []" using assms(2) by (auto simp: upd_var_def)
  have r: "ENOKI_CUDA_REG_RESERVED \<le> i" using assms(1) by simp
  have dec: "\<forall>fuel s2. cuda_dec_ref_ext fuel ?s1 i = Some (Inr s2) \<longrightarrow>
            ref_count_ext (trace s2 ! i) = ref_count_ext (trace s ! i) - 1
          \<and> (ref_count_ext (trace s ! i) = 1 \<longrightarrow> i \<notin> set (active s2))
          \<and> (ref_count_ext (trace s ! i) \<noteq> 1 \<longrightarrow> active s2 = active s)"
  proof (intro allI impI)
    fix fuel s2 assume d: "cuda_dec_ref_ext fuel ?s1 i = Some (Inr s2)"
    note E = cuda_dec_ref_ext_effect[OF d r ne]
    from E v1 have a: "ref_count_ext (trace s2 ! i) = ref_count_ext (trace s ! i) - 1" by simp
    from E v1 have b: "ref_count_ext (trace s ! i) = 1 \<longrightarrow> i \<notin> set (active s2)" by simp
    have c: "ref_count_ext (trace s ! i) \<noteq> 1 \<longrightarrow> active s2 = active s"
    proof
      assume "ref_count_ext (trace s ! i) \<noteq> 1"
      with E v1 have "s2 = upd_var ?s1 i (\<lambda>v. v\<lparr>ref_count_ext := ref_count_ext v - 1\<rparr>)" by simp
      then show "active s2 = active s" by simp
    qed
    from a b c show "ref_count_ext (trace s2 ! i) = ref_count_ext (trace s ! i) - 1
          \<and> (ref_count_ext (trace s ! i) = 1 \<longrightarrow> i \<notin> set (active s2))
          \<and> (ref_count_ext (trace s ! i) \<noteq> 1 \<longrightarrow> active s2 = active s)" by blast
  qed
  have asm: "\<forall>fuel reg_map sz out ptrs out' ptrs' s3.
            data (trace s ! i) = 0
            \<and> assemble_node fuel reg_map sz i (out, ptrs, ?s1) = Some (Inr (out', ptrs', s3)) \<longrightarrow>
            ref_count_ext (trace s3 ! i) = ref_count_ext (trace s ! i) - 1"
  proof (intro allI impI)
    fix fuel reg_map sz out ptrs out' ptrs' s3
    assume h: "data (trace s ! i) = 0
            \<and> assemble_node fuel reg_map sz i (out, ptrs, ?s1) = Some (Inr (out', ptrs', s3))"
    then have n: "assemble_node fuel reg_map sz i (out, ptrs, ?s1) = Some (Inr (out', ptrs', s3))"
      and d0: "data (trace ?s1 ! i) = 0" using v1 by simp_all
    from assemble_node_cases[OF n] d0 v1 obtain s2 where
      d: "cuda_dec_ref_ext fuel ?s1 i = Some (Inr s2)"
      and s3: "s3 = s2 \<or> s3 = upd_var (s2\<lparr>heap_top := Suc (heap_top s2)\<rparr>) i (\<lambda>v. v\<lparr>data := Suc (heap_top s2)\<rparr>)"
      by auto
    from dec d have e2: "ref_count_ext (trace s2 ! i) = ref_count_ext (trace s ! i) - 1" by blast
    from cuda_dec_ref_ext_gstep[OF d] have "gstep ?s1 s2" by blast
    then have "length (trace s2) = length (trace ?s1)" by (rule gstep_length)
    then have il: "i < length (trace s2)" using assms(2) by simp
    from s3 show "ref_count_ext (trace s3 ! i) = ref_count_ext (trace s ! i) - 1"
    proof
      assume "s3 = s2" with e2 show ?thesis by simp
    next
      assume "s3 = upd_var (s2\<lparr>heap_top := Suc (heap_top s2)\<rparr>) i (\<lambda>v. v\<lparr>data := Suc (heap_top s2)\<rparr>)"
      then have "trace s3 ! i = (trace s2 ! i)\<lparr>data := Suc (heap_top s2)\<rparr>"
        using il by (simp add: upd_var_def)
      with e2 show ?thesis by simp
    qed
  qed
  have f: "side_effect (trace ?s1 ! i)" "active ?s1 = active s"
    "ref_count_ext (trace ?s1 ! i) = ref_count_ext (trace s ! i)"
    "ref_count_int (trace ?s1 ! i) = ref_count_int (trace s ! i)"
    using v1 by simp_all
  from m f dec asm show ?thesis by blast
qed

theorem side_effect_mark_and_release_witness:
  "active with_side_effect = active two_nodes
   \<and> side_effect (trace with_side_effect ! 11)
   \<and> ref_count_ext (trace (ok (cuda_dec_ref_ext 3 with_side_effect 11)) ! 11) = 0
   \<and> 11 \<notin> set (active (ok (cuda_dec_ref_ext 3 with_side_effect 11)))"
proof -
  have a: "ENOKI_CUDA_REG_RESERVED < 11" by (simp add: ENOKI_CUDA_REG_RESERVED_def)
  have b: "11 < length (trace two_nodes)" by code_simp
  have e: "ref_count_ext (trace two_nodes ! 11) = 1" by code_simp
  have run: "cuda_dec_ref_ext 3 with_side_effect 11
               = Some (Inr (ok (cuda_dec_ref_ext 3 with_side_effect 11)))"
    by code_simp
  from side_effect_mark_and_release [OF a b] obtain s1 where
    m: "cuda_var_mark_side_effect two_nodes 11 = Inr s1"
    and f: "side_effect (trace s1 ! 11)" "active s1 = active two_nodes"
    and d: "\<forall>fuel s2. cuda_dec_ref_ext fuel s1 11 = Some (Inr s2) \<longrightarrow>
            ref_count_ext (trace s2 ! 11) = ref_count_ext (trace two_nodes ! 11) - 1
          \<and> (ref_count_ext (trace two_nodes ! 11) = 1 \<longrightarrow> 11 \<notin> set (active s2))
          \<and> (ref_count_ext (trace two_nodes ! 11) \<noteq> 1 \<longrightarrow> active s2 = active two_nodes)"
    by blast
  from m have s1: "s1 = with_side_effect" by (simp add: with_side_effect_def)
  from d [rule_format, OF run [folded s1]] e f show ?thesis
    unfolding s1 by simp
qed

text \<open>
  The claim as stated fails on \<open>with_side_effect\<close>: node 11 is marked and in the
  active set; after the external decrement of its only reference the active set
  is just node 10, the scheduler finds the schedule 10 alone, and the assembler
  emits the one line of node 10.
\<close>

theorem side_effect_node_dropped_by_external_decrement:
  "side_effect (trace with_side_effect ! 11)
   \<and> active with_side_effect = [11, 10]
   \<and> active (ok (cuda_dec_ref_ext 3 with_side_effect 11)) = [10]
   \<and> cuda_dec_ref_ext 3 with_side_effect 11 \<noteq> None
   \<and> sweep_active 3 (trace (ok (cuda_dec_ref_ext 3 with_side_effect 11)))
        (active (ok (cuda_dec_ref_ext 3 with_side_effect 11))) []
       = Some (Inr [(1, {10}, [10])])
   \<and> map_option (map_sum id fst)
        (cuda_jit_assemble 3 (ok (cuda_dec_ref_ext 3 with_side_effect 11)) 1 [10])
       = Some (Inr [''    mov.u32 %r10, 1;'' @ [newline]])"
  by code_simp

end
